theory Spec2Isabelle
  imports Main "HOL-Library.Log_Nat"
begin

section \<open>The host numbers\<close>

text \<open>
  The program computes with the numbers of its host language: IEEE-754 binary64
  values. A finite value is kept as the rational it denotes (\<open>Finite 0\<close> is the
  positive zero); every operation computes the exact rational result and rounds it to
  the nearest representable value, ties to the even significand.
\<close>

datatype jsnum = Finite rat | NegZero | PosInfinity | NegInfinity | NaN

definition ilog2 :: "rat \<Rightarrow> int" where
  \<comment> \<open>the integer \<open>k\<close> with \<open>2^k \<le> a < 2^(k+1)\<close>, for a positive \<open>a\<close>\<close>
  "ilog2 a = (case quotient_of a of (p, d) \<Rightarrow>
     (let k = bitlen p - bitlen d in if 2 powi k \<le> a then k else k - 1))"

definition round_half_even :: "rat \<Rightarrow> int" where
  "round_half_even x = (let f = \<lfloor>x\<rfloor>; d = x - of_int f in
     if d < 1 / 2 then f else if 1 / 2 < d then f + 1 else if even f then f else f + 1)"

text \<open>
  Rounding to binary64: the significand has 53 bits, the least exponent of the unit in
  the last place is \<open>-1074\<close> (subnormal numbers), and a rounded magnitude of
  \<open>2^1024\<close> or more overflows to an infinity. A non-zero value that rounds to zero
  keeps its sign.
\<close>

definition round64 :: "rat \<Rightarrow> jsnum" where
  "round64 q = (if q = 0 then Finite 0 else
     (let a = \<bar>q\<bar>;
          e = max (ilog2 a - 52) (- 1074);
          m = round_half_even (a / 2 powi e);
          v = of_int m * 2 powi e
      in if 2 powi 1024 \<le> v then (if q < 0 then NegInfinity else PosInfinity)
         else if m = 0 then (if q < 0 then NegZero else Finite 0)
         else Finite (if q < 0 then - v else v)))"

fun is_neg :: "jsnum \<Rightarrow> bool" where
  "is_neg (Finite q) = (q < 0)"
| "is_neg NegZero = True"
| "is_neg NegInfinity = True"
| "is_neg PosInfinity = False"
| "is_neg NaN = False"

fun is_zero :: "jsnum \<Rightarrow> bool" where
  "is_zero (Finite q) = (q = 0)"
| "is_zero NegZero = True"
| "is_zero _ = False"

fun is_inf :: "jsnum \<Rightarrow> bool" where
  "is_inf PosInfinity = True"
| "is_inf NegInfinity = True"
| "is_inf _ = False"

fun rat_of :: "jsnum \<Rightarrow> rat" where
  "rat_of (Finite q) = q"
| "rat_of _ = 0"

definition signed_zero :: "bool \<Rightarrow> jsnum" where
  "signed_zero neg = (if neg then NegZero else Finite 0)"

definition signed_inf :: "bool \<Rightarrow> jsnum" where
  "signed_inf neg = (if neg then NegInfinity else PosInfinity)"

definition isNaN :: "jsnum \<Rightarrow> bool" where
  "isNaN x = (x = NaN)"

text \<open>The operators \<open>-x\<close>, \<open>x + y\<close>, \<open>x - y\<close>, \<open>x * y\<close> and \<open>x / y\<close> on numbers.\<close>

fun js_neg :: "jsnum \<Rightarrow> jsnum" where
  "js_neg (Finite q) = (if q = 0 then NegZero else Finite (- q))"
| "js_neg NegZero = Finite 0"
| "js_neg PosInfinity = NegInfinity"
| "js_neg NegInfinity = PosInfinity"
| "js_neg NaN = NaN"

definition js_add :: "jsnum \<Rightarrow> jsnum \<Rightarrow> jsnum" where
  "js_add x y =
     (if x = NaN \<or> y = NaN then NaN
      else if is_inf x \<and> is_inf y then (if x = y then x else NaN)
      else if is_inf x then x
      else if is_inf y then y
      else if x = NegZero \<and> y = NegZero then NegZero
      else round64 (rat_of x + rat_of y))"

definition js_sub :: "jsnum \<Rightarrow> jsnum \<Rightarrow> jsnum" where
  "js_sub x y = js_add x (js_neg y)"

definition js_mul :: "jsnum \<Rightarrow> jsnum \<Rightarrow> jsnum" where
  "js_mul x y =
     (if x = NaN \<or> y = NaN then NaN
      else if is_inf x \<or> is_inf y then
        (if is_zero x \<or> is_zero y then NaN else signed_inf (is_neg x \<noteq> is_neg y))
      else if is_zero x \<or> is_zero y then signed_zero (is_neg x \<noteq> is_neg y)
      else round64 (rat_of x * rat_of y))"

definition js_div :: "jsnum \<Rightarrow> jsnum \<Rightarrow> jsnum" where
  "js_div x y =
     (if x = NaN \<or> y = NaN then NaN
      else if is_inf x then (if is_inf y then NaN else signed_inf (is_neg x \<noteq> is_neg y))
      else if is_inf y then signed_zero (is_neg x \<noteq> is_neg y)
      else if is_zero y then (if is_zero x then NaN else signed_inf (is_neg x \<noteq> is_neg y))
      else if is_zero x then signed_zero (is_neg x \<noteq> is_neg y)
      else round64 (rat_of x / rat_of y))"

subsection \<open>Values that rounding leaves unchanged\<close>

lemma round64_not_NaN: "round64 q \<noteq> NaN"
  by (simp add: round64_def Let_def)

lemma round_half_even_of_int: "round_half_even (of_int m) = m"
  by (simp add: round_half_even_def)

lemma ilog2_lower:
  assumes "0 < a"
  shows "2 powi (ilog2 a) \<le> a"
proof -
  obtain p d where pd: "quotient_of a = (p, d)" by (cases "quotient_of a")
  then have d: "0 < d" by (rule quotient_of_denom_pos)
  from pd have a: "a = of_int p / of_int d" by (rule quotient_of_div)
  with assms d have p: "0 < p" by (simp add: zero_less_divide_iff)
  let ?k = "bitlen p - bitlen d"
  show ?thesis
  proof (cases "(2::rat) powi ?k \<le> a")
    case True
    then show ?thesis by (simp add: ilog2_def pd)
  next
    case False
    have bp: "2 ^ nat (bitlen p - 1) \<le> p" using bitlen_bounds [OF p] by simp
    have bd: "d < 2 ^ nat (bitlen d)" using bitlen_bounds [OF d] by simp
    have bp1: "1 \<le> bitlen p" using p bitlen_eq_zero_iff [of p] bitlen_nonneg [of p] by linarith
    have "(2::rat) powi (?k - 1) = 2 powi (bitlen p - 1) / 2 powi (bitlen d)"
      using power_int_diff [of "2::rat" "bitlen p - 1" "bitlen d"] by (simp add: algebra_simps)
    also have "\<dots> = 2 ^ nat (bitlen p - 1) / 2 ^ nat (bitlen d)"
      using bp1 bitlen_nonneg [of d] by (simp add: power_int_def)
    also have "\<dots> \<le> of_int p / 2 ^ nat (bitlen d)"
    proof -
      have "(of_int (2 ^ nat (bitlen p - 1)) :: rat) \<le> of_int p" using bp by (simp only: of_int_le_iff)
      then show ?thesis by (simp add: divide_right_mono)
    qed
    also have "\<dots> \<le> of_int p / of_int d"
    proof -
      have "(of_int d :: rat) \<le> of_int (2 ^ nat (bitlen d))" using bd by (simp only: of_int_le_iff)
      then have "(of_int d :: rat) \<le> 2 ^ nat (bitlen d)" by simp
      with p d show ?thesis by (simp add: frac_le)
    qed
    finally have "(2::rat) powi (?k - 1) \<le> a" using a by simp
    moreover from False have "ilog2 a = ?k - 1" by (simp add: ilog2_def pd)
    ultimately show ?thesis by simp
  qed
qed


lemma round64_exact_pos:
  assumes m: "0 < m" "m < 2 ^ 53" and e: "- 1074 \<le> e" and a: "a = of_int m * 2 powi e"
    and hi: "a < 2 powi 1024"
  shows "round64 a = Finite a"
proof -
  have apos: "0 < a" using m a by (simp add: zero_less_power_int)
  let ?e = "max (ilog2 a - 52) (- 1074)"
  have "(2::rat) powi (ilog2 a) \<le> a" using apos by (rule ilog2_lower)
  also have "a < 2 ^ 53 * 2 powi e"
  proof -
    have "(of_int m :: rat) < of_int (2 ^ 53)" using m by (simp only: of_int_less_iff)
    then show ?thesis unfolding a by (simp add: zero_less_power_int)
  qed
  also have "\<dots> = 2 powi (53 + e)" by (simp add: power_int_add)
  finally have lt: "(2::rat) powi (ilog2 a) < 2 powi (53 + e)" .
  have "ilog2 a < 53 + e"
  proof (rule ccontr)
    assume "\<not> ilog2 a < 53 + e"
    then have "53 + e \<le> ilog2 a" by simp
    then have "(2::rat) powi (53 + e) \<le> 2 powi (ilog2 a)"
      by (rule power_int_increasing) simp
    with lt show False by simp
  qed
  with e have le: "?e \<le> e" by simp
  have "a / 2 powi ?e = of_int m * 2 powi (e - ?e)"
    unfolding a by (simp add: power_int_diff)
  also have "\<dots> = of_int (m * 2 ^ nat (e - ?e))"
    using le by (simp add: power_int_def)
  finally have q: "a / 2 powi ?e = of_int (m * 2 ^ nat (e - ?e))" .
  have r: "round_half_even (a / 2 powi ?e) = m * 2 ^ nat (e - ?e)"
    unfolding q by (rule round_half_even_of_int)
  have v: "of_int (m * 2 ^ nat (e - ?e)) * 2 powi ?e = a"
    using q by (simp add: field_simps)
  have nz: "m * 2 ^ nat (e - ?e) \<noteq> 0" using m by simp
  have abs: "\<bar>a\<bar> = a" using apos by simp
  show ?thesis
    unfolding round64_def Let_def abs r v using apos hi nz by simp
qed


lemma round64_uminus: "q \<noteq> 0 \<Longrightarrow> round64 (- q) = js_neg (round64 q)"
  by (cases "0 < q") (auto simp: round64_def Let_def)

lemma round64_of_nat:
  assumes "n < 2 ^ 53"
  shows "round64 (of_nat n) = Finite (of_nat n)"
proof (cases "n = 0")
  case True
  then show ?thesis by (simp add: round64_def)
next
  case False
  have "(of_nat n :: rat) < of_nat (2 ^ 53)" using assms by (simp only: of_nat_less_iff)
  also have "(of_nat (2 ^ 53) :: rat) < 2 powi 1024" by simp
  finally have hi: "(of_nat n :: rat) < 2 powi 1024" .
  have "round64 (of_int (int n) * 2 powi 0) = Finite (of_int (int n) * 2 powi 0)"
    using False assms hi by (intro round64_exact_pos [of "int n" 0]) auto
  then show ?thesis by simp
qed

lemma round64_numeral:
  "(numeral k :: nat) < 2 ^ 53 \<Longrightarrow> round64 (numeral k) = Finite (numeral k)"
  using round64_of_nat [of "numeral k"] by simp

lemma round64_one: "round64 1 = Finite 1"
  using round64_of_nat [of 1] by simp

lemma round64_half_of_nat:
  assumes "n < 2 ^ 53"
  shows "round64 (of_nat n / 2) = Finite (of_nat n / 2)"
proof (cases "n = 0")
  case True
  then show ?thesis by (simp add: round64_def)
next
  case False
  have "(of_nat n :: rat) < of_nat (2 ^ 53)" using assms by (simp only: of_nat_less_iff)
  then have "(of_nat n :: rat) / 2 < 2 ^ 53" by simp
  also have "(2 ^ 53 :: rat) < 2 powi 1024" by simp
  finally have hi: "of_int (int n) * 2 powi (- 1) < (2::rat) powi 1024"
    by (simp add: field_simps)
  have n: "0 < int n" "int n < 2 ^ 53" using False assms by auto
  have "round64 (of_int (int n) * 2 powi (- 1)) = Finite (of_int (int n) * 2 powi (- 1))"
    using n hi by (intro round64_exact_pos [of "int n" "- 1"]) simp_all
  then show ?thesis by (simp add: field_simps)
qed

lemma round64_half_numeral:
  "(numeral k :: nat) < 2 ^ 53 \<Longrightarrow> round64 (numeral k / 2) = Finite (numeral k / 2)"
  using round64_half_of_nat [of "numeral k"] by simp

lemma round64_of_int:
  assumes "0 \<le> i" "i < 2 ^ 53"
  shows "round64 (of_int i) = Finite (of_int i)"
proof -
  have "nat i < 2 ^ 53" using assms by (simp add: nat_less_iff)
  from round64_of_nat [OF this] assms show ?thesis by simp
qed

lemma round64_half_of_int:
  assumes "0 \<le> i" "i < 2 ^ 53"
  shows "round64 (of_int i / 2) = Finite (of_int i / 2)"
proof -
  have "nat i < 2 ^ 53" using assms by (simp add: nat_less_iff)
  from round64_half_of_nat [OF this] assms show ?thesis by simp
qed

text \<open>
  For evaluation: a small non-negative integer or half of one is its own rounding, so
  the rounding proper is computed only for the other values.
\<close>

lemma round64_code [code]:
  "round64 q = (case quotient_of q of (p, d) \<Rightarrow>
     if (d = 1 \<or> d = 2) \<and> 0 \<le> p \<and> p < 2 ^ 53 then Finite q
     else if q = 0 then Finite 0 else
     (let a = \<bar>q\<bar>;
          e = max (ilog2 a - 52) (- 1074);
          m = round_half_even (a / 2 powi e);
          v = of_int m * 2 powi e
      in if 2 powi 1024 \<le> v then (if q < 0 then NegInfinity else PosInfinity)
         else if m = 0 then (if q < 0 then NegZero else Finite 0)
         else Finite (if q < 0 then - v else v)))"
proof -
  obtain p d where pd: "quotient_of q = (p, d)" by (cases "quotient_of q")
  then have q: "q = of_int p / of_int d" by (rule quotient_of_div)
  show ?thesis
  proof (cases "(d = 1 \<or> d = 2) \<and> 0 \<le> p \<and> p < 2 ^ 53")
    case True
    then have "round64 q = Finite q"
      using round64_of_int [of p] round64_half_of_int [of p] unfolding q by auto
    with True show ?thesis by (simp add: pd)
  next
    case False
    then show ?thesis unfolding round64_def pd prod.case by (simp only: if_False)
  qed
qed

section \<open>Tokens\<close>

datatype TokenType = INTEGER | PLUS | MINUS | MUL | DIVIDE | LPAREN | RPAREN | EOF

text \<open>The field \<open>value: number | string | undefined\<close> of a token.\<close>

datatype tokval = NumVal jsnum | StrVal string | NoVal

datatype Token = Token (token_type: TokenType) (token_value: tokval)

section \<open>Errors and outcomes\<close>

text \<open>
  The program throws \<open>new Error(message)\<close> in two places: \<open>Lexer.raiseError\<close> with
  the message \<open>Invalid character\<close> and \<open>Parser.raiseError\<close> with \<open>Invalid syntax\<close>. A
  thrown error ends the run. \<open>OutOfFuel\<close> is not an outcome of the program: it marks
  a recursion bound of the model that was too small (see \<open>parser_fuel_suffices\<close>).
\<close>

datatype error = Error string

abbreviation InvalidCharacter :: error where
  "InvalidCharacter \<equiv> Error ''Invalid character''"

abbreviation UnexpectedToken :: error where
  "UnexpectedToken \<equiv> Error ''Invalid syntax''"

datatype 'a outcome = Return 'a | Throw error | OutOfFuel

fun bind :: "'a outcome \<Rightarrow> ('a \<Rightarrow> 'b outcome) \<Rightarrow> 'b outcome" where
  "bind (Return x) f = f x"
| "bind (Throw e) f = Throw e"
| "bind OutOfFuel f = OutOfFuel"

section \<open>The lexer\<close>

record Lexer =
  text' :: string
  pos :: nat
  currentChar :: "char option"

definition char_at :: "string \<Rightarrow> nat \<Rightarrow> char option" where
  \<comment> \<open>\<open>text[i]\<close>: \<open>undefined\<close> past the end\<close>
  "char_at s i = (if i < length s then Some (s ! i) else None)"

definition new_Lexer :: "string \<Rightarrow> Lexer" where
  "new_Lexer s = \<lparr>text' = s, pos = 0, currentChar = char_at s 0\<rparr>"

definition advance :: "Lexer \<Rightarrow> Lexer" where
  "advance st = (let p = pos st + 1 in
     if int p > int (length (text' st)) - 1
     then st\<lparr>pos := p, currentChar := None\<rparr>
     else st\<lparr>pos := p, currentChar := char_at (text' st) p\<rparr>)"

definition lexer_measure :: "Lexer \<Rightarrow> nat" where
  \<comment> \<open>the characters not yet consumed: the current one and those after it\<close>
  "lexer_measure st = (case currentChar st of None \<Rightarrow> 0
     | Some c \<Rightarrow> Suc (length (text' st) - Suc (pos st)))"

lemma advance_measure:
  "currentChar st = Some c \<Longrightarrow> lexer_measure (advance st) < lexer_measure st"
  by (auto simp: lexer_measure_def advance_def Let_def char_at_def)

function skipWhitespace :: "Lexer \<Rightarrow> Lexer" where
  "skipWhitespace st =
     (if currentChar st = Some CHR '' '' then skipWhitespace (advance st) else st)"
  by pat_completeness auto
termination
  by (relation "measure lexer_measure") (auto simp: advance_measure)

declare skipWhitespace.simps [simp del]

definition is_digit :: "char \<Rightarrow> bool" where
  "is_digit c = (c \<in> set ''0123456789'')"

definition digit_val :: "char \<Rightarrow> int" where
  "digit_val c = of_char c - 48"

definition decimal :: "string \<Rightarrow> int" where
  "decimal ds = foldl (\<lambda>a c. 10 * a + digit_val c) 0 ds"

text \<open>
  The host's \<open>parseFloat\<close>, on the two kinds of argument the lexer passes: a single
  character, and a run of decimal digits. It reads the longest prefix of decimal
  digits and rounds its value to a number; without such a prefix the result is
  \<open>NaN\<close>.
\<close>

definition parseFloat :: "string \<Rightarrow> jsnum" where
  "parseFloat s = (let ds = takeWhile is_digit s in
     if ds = [] then NaN else round64 (of_int (decimal ds)))"

function integer_loop :: "string \<Rightarrow> Lexer \<Rightarrow> string \<times> Lexer" where
  "integer_loop result st =
     (case currentChar st of
        None \<Rightarrow> (result, st)
      | Some c \<Rightarrow>
          if \<not> isNaN (parseFloat [c]) then integer_loop (result @ [c]) (advance st)
          else (result, st))"
  by pat_completeness auto
termination
  by (relation "measure (\<lambda>(result, st). lexer_measure st)") (auto simp: advance_measure)

declare integer_loop.simps [simp del]

definition integer :: "Lexer \<Rightarrow> jsnum \<times> Lexer" where
  "integer st = (case integer_loop [] st of (result, st') \<Rightarrow> (parseFloat result, st'))"

lemma skipWhitespace_measure_le: "lexer_measure (skipWhitespace st) \<le> lexer_measure st"
proof (induction st rule: skipWhitespace.induct)
  case (1 st)
  show ?case
  proof (cases "currentChar st = Some CHR '' ''")
    case True
    with 1 have "lexer_measure (skipWhitespace (advance st)) \<le> lexer_measure (advance st)"
      by simp
    with True advance_measure [of st] show ?thesis
      by (subst skipWhitespace.simps) simp
  next
    case False
    then show ?thesis by (subst skipWhitespace.simps) simp
  qed
qed

lemma skipWhitespace_measure:
  assumes "currentChar st = Some CHR '' ''"
  shows "lexer_measure (skipWhitespace st) < lexer_measure st"
proof -
  have "skipWhitespace st = skipWhitespace (advance st)"
    using assms by (subst skipWhitespace.simps) simp
  with skipWhitespace_measure_le [of "advance st"] advance_measure [OF assms]
  show ?thesis by simp
qed

function nextToken :: "Lexer \<Rightarrow> (Token \<times> Lexer) outcome" where
  "nextToken st =
     (case currentChar st of
        None \<Rightarrow> Return (Token EOF NoVal, st)
      | Some c \<Rightarrow>
          if c = CHR '' '' then nextToken (skipWhitespace st)
          else if \<not> isNaN (parseFloat [c]) then
            (case integer st of (v, st') \<Rightarrow> Return (Token INTEGER (NumVal v), st'))
          else if c = CHR ''('' then Return (Token LPAREN (StrVal ''(''), advance st)
          else if c = CHR '')'' then Return (Token RPAREN (StrVal '')''), advance st)
          else if c = CHR ''+'' then Return (Token PLUS (StrVal ''+''), advance st)
          else if c = CHR ''-'' then Return (Token MINUS (StrVal ''-''), advance st)
          else if c = CHR ''*'' then Return (Token MUL (StrVal ''*''), advance st)
          else if c = CHR ''/'' then Return (Token DIVIDE (StrVal ''/''), advance st)
          else Throw InvalidCharacter)"
  by pat_completeness auto
termination
  by (relation "measure lexer_measure") (auto simp: skipWhitespace_measure)

declare nextToken.simps [simp del]

section \<open>The syntax tree\<close>

text \<open>
  The classes \<open>UnaryOp\<close>, \<open>BinOp\<close> and \<open>Num\<close>. A child is optional because
  \<open>Parser.factor\<close> can return no node (\<open>undefined\<close>), which the constructors store
  as it is. \<open>BinOp\<close> keeps its operator token twice (\<open>token\<close> and \<open>op\<close>); the model
  keeps it once. \<open>Num\<close> keeps the token and \<open>value = token.value as number\<close>.
\<close>

datatype AST =
    UnaryOp Token "AST option"
  | BinOp "AST option" Token "AST option"
  | Num Token jsnum

text \<open>
  The cast \<open>token.value as number\<close>. The parser applies it to \<open>INTEGER\<close> tokens
  only, and every \<open>INTEGER\<close> token of the lexer holds a number; on another payload the
  cast has no number to give, and the model puts \<open>NaN\<close> there.
\<close>

fun as_number :: "tokval \<Rightarrow> jsnum" where
  "as_number (NumVal x) = x"
| "as_number (StrVal s) = NaN"
| "as_number NoVal = NaN"

definition new_Num :: "Token \<Rightarrow> AST" where
  "new_Num token = Num token (as_number (token_value token))"

section \<open>The parser\<close>

record Parser =
  lexer :: Lexer
  currentToken :: Token

definition new_Parser :: "Lexer \<Rightarrow> Parser outcome" where
  "new_Parser lx =
     bind (nextToken lx) (\<lambda>(tok, lx'). Return \<lparr>lexer = lx', currentToken = tok\<rparr>)"

definition eat :: "TokenType \<Rightarrow> Parser \<Rightarrow> Parser outcome" where
  "eat tokenType p =
     (if token_type (currentToken p) = tokenType
      then bind (nextToken (lexer p)) (\<lambda>(tok, lx'). Return \<lparr>lexer = lx', currentToken = tok\<rparr>)
      else Throw UnexpectedToken)"

text \<open>
  \<open>factor\<close>, \<open>term\<close> and \<open>expr\<close> call each other; the two \<open>while\<close> loops are the
  functions \<open>term_loop\<close> and \<open>expr_loop\<close>, which carry the variable \<open>node\<close>. The first
  argument bounds the depth of the calls: each call passes one less to the calls it
  makes, and a call with the bound \<open>0\<close> gives \<open>OutOfFuel\<close>.
\<close>

fun factor :: "nat \<Rightarrow> Parser \<Rightarrow> (AST option \<times> Parser) outcome"
  and term' :: "nat \<Rightarrow> Parser \<Rightarrow> (AST option \<times> Parser) outcome"
  and term_loop :: "nat \<Rightarrow> AST option \<Rightarrow> Parser \<Rightarrow> (AST option \<times> Parser) outcome"
  and expr :: "nat \<Rightarrow> Parser \<Rightarrow> (AST option \<times> Parser) outcome"
  and expr_loop :: "nat \<Rightarrow> AST option \<Rightarrow> Parser \<Rightarrow> (AST option \<times> Parser) outcome"
where
  "factor 0 p = OutOfFuel"
| "factor (Suc n) p =
     (let token = currentToken p in
      if token_type token = PLUS then
        bind (eat PLUS p) (\<lambda>p1.
        bind (factor n p1) (\<lambda>(operand, p2).
        Return (Some (UnaryOp token operand), p2)))
      else if token_type token = MINUS then
        bind (eat MINUS p) (\<lambda>p1.
        bind (factor n p1) (\<lambda>(operand, p2).
        Return (Some (UnaryOp token operand), p2)))
      else if token_type token = INTEGER then
        bind (eat INTEGER p) (\<lambda>p1.
        Return (Some (new_Num token), p1))
      else if token_type token = LPAREN then
        bind (eat LPAREN p) (\<lambda>p1.
        bind (expr n p1) (\<lambda>(result, p2).
        bind (eat RPAREN p2) (\<lambda>p3.
        Return (result, p3))))
      else Return (None, p))"
| "term' 0 p = OutOfFuel"
| "term' (Suc n) p = bind (factor n p) (\<lambda>(node, p1). term_loop n node p1)"
| "term_loop 0 node p = OutOfFuel"
| "term_loop (Suc n) node p =
     (if token_type (currentToken p) \<in> set [MUL, DIVIDE] then
        (let token = currentToken p in
         bind (if token_type token = MUL then eat MUL p else Return p) (\<lambda>p1.
         bind (if token_type token = DIVIDE then eat DIVIDE p1 else Return p1) (\<lambda>p2.
         bind (factor n p2) (\<lambda>(right, p3).
         term_loop n (Some (BinOp node token right)) p3))))
      else Return (node, p))"
| "expr 0 p = OutOfFuel"
| "expr (Suc n) p = bind (term' n p) (\<lambda>(node, p1). expr_loop n node p1)"
| "expr_loop 0 node p = OutOfFuel"
| "expr_loop (Suc n) node p =
     (if token_type (currentToken p) \<in> set [MINUS, PLUS] then
        (let token = currentToken p in
         bind (if token_type token = MINUS then eat MINUS p else Return p) (\<lambda>p1.
         bind (if token_type token = PLUS then eat PLUS p1 else Return p1) (\<lambda>p2.
         bind (term' n p2) (\<lambda>(right, p3).
         expr_loop n (Some (BinOp node token right)) p3))))
      else Return (node, p))"

definition parse :: "nat \<Rightarrow> Parser \<Rightarrow> (AST option \<times> Parser) outcome" where
  "parse n p = expr n p"

section \<open>The interpreter\<close>

text \<open>What \<open>visit\<close> returns: a number, or \<open>undefined\<close>.\<close>

datatype jsval = Undefined | Number jsnum

fun ToNumber :: "jsval \<Rightarrow> jsnum" where
  "ToNumber Undefined = NaN"
| "ToNumber (Number x) = x"

function visit :: "AST option \<Rightarrow> jsval"
  and visitUnaryOp :: "Token \<Rightarrow> AST option \<Rightarrow> jsval"
  and visitBinOp :: "AST option \<Rightarrow> Token \<Rightarrow> AST option \<Rightarrow> jsval"
  and visitNum :: "Token \<Rightarrow> jsnum \<Rightarrow> jsval"
where
  "visit None = Undefined"
| "visit (Some (UnaryOp op e)) = visitUnaryOp op e"
| "visit (Some (BinOp left op right)) = visitBinOp left op right"
| "visit (Some (Num token v)) = visitNum token v"
| "visitUnaryOp op e =
     (if token_type op = PLUS then Number (ToNumber (visit e))
      else if token_type op = MINUS then Number (js_neg (ToNumber (visit e)))
      else Undefined)"
| "visitBinOp left op right =
     (if token_type op = PLUS then
        Number (js_add (ToNumber (visit left)) (ToNumber (visit right)))
      else if token_type op = MINUS then
        Number (js_sub (ToNumber (visit left)) (ToNumber (visit right)))
      else if token_type op = MUL then
        Number (js_mul (ToNumber (visit left)) (ToNumber (visit right)))
      else if token_type op = DIVIDE then
        Number (js_div (ToNumber (visit left)) (ToNumber (visit right)))
      else Undefined)"
| "visitNum token v = Number v"
  by pat_completeness auto
termination
  by (relation "measure (\<lambda>x. case x of
        Inl (Inl t) \<Rightarrow> 2 * size_option size t
      | Inl (Inr (op, e)) \<Rightarrow> 2 * size_option size e + 1
      | Inr (Inl (l, op, r)) \<Rightarrow> 2 * (size_option size l + size_option size r) + 1
      | Inr (Inr v) \<Rightarrow> 0)") auto

definition interpret' :: "nat \<Rightarrow> Parser \<Rightarrow> jsval outcome" where
  "interpret' n p = bind (parse n p) (\<lambda>(tree, p'). Return (visit tree))"

text \<open>
  \<open>main\<close>, from the joined command line arguments to the value it prints. The bound
  on the depth of the parser's calls is three calls for every character and three
  more, which is always enough (\<open>evaluate_terminates\<close>).
\<close>

definition parser_fuel :: "string \<Rightarrow> nat" where
  "parser_fuel s = 3 * length s + 3"

definition evaluate :: "string \<Rightarrow> jsval outcome" where
  "evaluate input =
     bind (new_Parser (new_Lexer input)) (\<lambda>parser. interpret' (parser_fuel input) parser)"

section \<open>Measures: what the lexer and the parser consume\<close>

lemma integer_loop_measure:
  "integer_loop result st = (r, st') \<Longrightarrow> lexer_measure st' \<le> lexer_measure st"
proof (induction result st rule: integer_loop.induct)
  case (1 result st)
  show ?case
  proof (cases "currentChar st")
    case None
    with "1.prems" show ?thesis by (simp add: integer_loop.simps)
  next
    case (Some c)
    show ?thesis
    proof (cases "isNaN (parseFloat [c])")
      case True
      with Some "1.prems" show ?thesis by (simp add: integer_loop.simps)
    next
      case False
      with Some "1.prems" have "integer_loop (result @ [c]) (advance st) = (r, st')"
        by (simp add: integer_loop.simps)
      with "1.IH" [OF Some] False have "lexer_measure st' \<le> lexer_measure (advance st)" by simp
      with advance_measure [OF Some] show ?thesis by simp
    qed
  qed
qed

lemma integer_measure:
  assumes "currentChar st = Some c" "\<not> isNaN (parseFloat [c])" "integer st = (v, st')"
  shows "lexer_measure st' < lexer_measure st"
proof -
  from assms obtain r where "integer_loop ([] @ [c]) (advance st) = (r, st')"
    by (auto simp: integer_def integer_loop.simps [of "[]" st] split: prod.splits)
  from integer_loop_measure [OF this] advance_measure [OF assms(1)] show ?thesis by simp
qed

lemma nextToken_measure:
  "nextToken st = Return (tok, st') \<Longrightarrow>
     lexer_measure st' \<le> lexer_measure st \<and>
     (token_type tok \<noteq> EOF \<longrightarrow> lexer_measure st' < lexer_measure st)"
proof (induction st rule: nextToken.induct)
  case (1 st)
  show ?case
  proof (cases "currentChar st")
    case None
    with "1.prems" show ?thesis by (auto simp: nextToken.simps [of st])
  next
    case (Some c)
    show ?thesis
    proof (cases "c = CHR '' ''")
      case True
      with Some "1.prems" have "nextToken (skipWhitespace st) = Return (tok, st')"
        by (simp add: nextToken.simps [of st])
      with "1.IH" [OF Some True] skipWhitespace_measure_le [of st] show ?thesis by auto
    next
      case False
      with Some "1.prems" advance_measure [OF Some] integer_measure [OF Some]
      show ?thesis
        by (auto simp: nextToken.simps [of st] split: if_splits prod.splits)
    qed
  qed
qed

lemma nextToken_not_OutOfFuel: "nextToken st \<noteq> OutOfFuel"
proof (induction st rule: nextToken.induct)
  case (1 st)
  then show ?case
    by (cases "currentChar st") (auto simp: nextToken.simps [of st] split: prod.splits)
qed

definition parser_measure :: "Parser \<Rightarrow> nat" where
  "parser_measure p =
     lexer_measure (lexer p) + (if token_type (currentToken p) = EOF then 0 else 1)"

lemma eat_not_OutOfFuel: "eat t p \<noteq> OutOfFuel"
  using nextToken_not_OutOfFuel [of "lexer p"]
  by (cases "nextToken (lexer p)") (auto simp: eat_def)

lemma eat_measure:
  assumes "eat t p = Return p'" "t \<noteq> EOF"
  shows "parser_measure p' < parser_measure p"
proof -
  from assms obtain tok lx where t: "token_type (currentToken p) = t"
    and n: "nextToken (lexer p) = Return (tok, lx)" and p': "p' = \<lparr>lexer = lx, currentToken = tok\<rparr>"
    by (cases "nextToken (lexer p)") (auto simp: eat_def split: if_splits)
  from nextToken_measure [OF n] t assms(2) show ?thesis
    by (auto simp: parser_measure_def p')
qed

section \<open>The bound on the depth of the calls is always enough\<close>

definition bounded :: "('a \<Rightarrow> nat) \<Rightarrow> nat \<Rightarrow> 'a outcome \<Rightarrow> bool" where
  "bounded g k r = (r \<noteq> OutOfFuel \<and> (\<forall>x. r = Return x \<longrightarrow> g x \<le> k))"

lemma bounded_bind:
  assumes "bounded g k m" "\<And>x. m = Return x \<Longrightarrow> g x \<le> k \<Longrightarrow> bounded h j (f x)"
  shows "bounded h j (bind m f)"
  using assms by (cases m) (auto simp: bounded_def)

lemma bounded_Return: "g x \<le> k \<Longrightarrow> bounded g k (Return x)"
  by (simp add: bounded_def)

lemma bounded_Throw: "bounded g k (Throw e)"
  by (simp add: bounded_def)

lemma bounded_weaken: "bounded g k r \<Longrightarrow> k \<le> j \<Longrightarrow> bounded g j r"
  by (auto simp: bounded_def)

lemma bounded_eat:
  "t \<noteq> EOF \<Longrightarrow> bounded (\<lambda>x. Suc (parser_measure x)) (parser_measure p) (eat t p)"
  using eat_measure [of t p] eat_not_OutOfFuel [of t p]
  by (auto simp: bounded_def)

abbreviation pm :: "AST option \<times> Parser \<Rightarrow> nat" where
  "pm \<equiv> (\<lambda>x. parser_measure (snd x))"

lemma bounded_bind_pair:
  assumes "bounded pm k m"
    "\<And>node p1. m = Return (node, p1) \<Longrightarrow> parser_measure p1 \<le> k \<Longrightarrow> bounded h j (f node p1)"
  shows "bounded h j (bind m (\<lambda>(node, p1). f node p1))"
  using assms by (cases m) (auto simp: bounded_def)

lemma parser_fuel_suffices_aux:
  "(\<forall>p. 3 * parser_measure p + 1 \<le> n \<longrightarrow> bounded pm (parser_measure p) (factor n p)) \<and>
   (\<forall>p. 3 * parser_measure p + 2 \<le> n \<longrightarrow> bounded pm (parser_measure p) (term' n p)) \<and>
   (\<forall>node p. 3 * parser_measure p + 1 \<le> n \<longrightarrow> bounded pm (parser_measure p) (term_loop n node p)) \<and>
   (\<forall>p. 3 * parser_measure p + 3 \<le> n \<longrightarrow> bounded pm (parser_measure p) (expr n p)) \<and>
   (\<forall>node p. 3 * parser_measure p + 2 \<le> n \<longrightarrow> bounded pm (parser_measure p) (expr_loop n node p))"
proof (induction n)
  case 0
  show ?case by simp
next
  case (Suc n)
  then have F: "\<And>p. 3 * parser_measure p + 1 \<le> n \<Longrightarrow> bounded pm (parser_measure p) (factor n p)"
    and T: "\<And>p. 3 * parser_measure p + 2 \<le> n \<Longrightarrow> bounded pm (parser_measure p) (term' n p)"
    and TL: "\<And>node p. 3 * parser_measure p + 1 \<le> n \<Longrightarrow> bounded pm (parser_measure p) (term_loop n node p)"
    and E: "\<And>p. 3 * parser_measure p + 3 \<le> n \<Longrightarrow> bounded pm (parser_measure p) (expr n p)"
    and EL: "\<And>node p. 3 * parser_measure p + 2 \<le> n \<Longrightarrow> bounded pm (parser_measure p) (expr_loop n node p)"
    by blast+
  have 1: "bounded pm (parser_measure p) (factor (Suc n) p)" if "3 * parser_measure p + 1 \<le> Suc n" for p
  proof -
    have u: "bounded pm (parser_measure p)
        (bind (eat t p) (\<lambda>p1. bind (factor n p1) (\<lambda>(operand, p2). Return (Some (UnaryOp tok operand), p2))))"
      if "t \<noteq> EOF" for t tok
    proof (rule bounded_bind [OF bounded_eat [OF that]])
      fix p1 assume "Suc (parser_measure p1) \<le> parser_measure p"
      with \<open>3 * parser_measure p + 1 \<le> Suc n\<close> have "3 * parser_measure p1 + 1 \<le> n" "parser_measure p1 \<le> parser_measure p" by auto
      with F [of p1] show "bounded pm (parser_measure p) (bind (factor n p1) (\<lambda>(operand, p2). Return (Some (UnaryOp tok operand), p2)))"
        by (auto intro!: bounded_bind [where g = pm and k = "parser_measure p1"] bounded_Return)
    qed
    have i: "bounded pm (parser_measure p) (bind (eat INTEGER p) (\<lambda>p1. Return (Some (new_Num tok), p1)))" for tok
      by (rule bounded_bind [OF bounded_eat]) (auto intro!: bounded_Return)
    have l: "bounded pm (parser_measure p)
        (bind (eat LPAREN p) (\<lambda>p1. bind (expr n p1) (\<lambda>(result, p2). bind (eat RPAREN p2) (\<lambda>p3. Return (result, p3)))))"
    proof (rule bounded_bind [OF bounded_eat])
      show "LPAREN \<noteq> EOF" by simp
      fix p1 assume "Suc (parser_measure p1) \<le> parser_measure p"
      with \<open>3 * parser_measure p + 1 \<le> Suc n\<close> have a: "3 * parser_measure p1 + 3 \<le> n" "parser_measure p1 \<le> parser_measure p" by auto
      show "bounded pm (parser_measure p) (bind (expr n p1) (\<lambda>(result, p2). bind (eat RPAREN p2) (\<lambda>p3. Return (result, p3))))"
      proof (rule bounded_bind [OF E [OF a(1)]])
        fix x :: "AST option \<times> Parser" assume b: "pm x \<le> parser_measure p1"
        obtain result p2 where x: "x = (result, p2)" by (cases x)
        have "bounded pm (parser_measure p) (bind (eat RPAREN p2) (\<lambda>p3. Return (result, p3)))"
          using a b x by (intro bounded_bind [OF bounded_eat]) (auto intro!: bounded_Return)
        then show "bounded pm (parser_measure p) (case x of (result, p2) \<Rightarrow> bind (eat RPAREN p2) (\<lambda>p3. Return (result, p3)))"
          by (simp add: x)
      qed
    qed
    show ?thesis
      using u [of PLUS] u [of MINUS] i l
      by (auto simp: Let_def intro!: bounded_Return)
  qed
  have 2: "bounded pm (parser_measure p) (term' (Suc n) p)" if "3 * parser_measure p + 2 \<le> Suc n" for p
  proof -
    from that have a: "3 * parser_measure p + 1 \<le> n" by simp
    have "bounded pm (parser_measure p) (bind (factor n p) (\<lambda>(node, p1). term_loop n node p1))"
    proof (rule bounded_bind_pair [OF F [OF a]])
      fix node p1 assume "parser_measure p1 \<le> parser_measure p"
      with a TL [of p1 node] show "bounded pm (parser_measure p) (term_loop n node p1)"
        by (auto intro: bounded_weaken)
    qed
    then show ?thesis by simp
  qed
  have 3: "bounded pm (parser_measure p) (term_loop (Suc n) node p)"
    if "3 * parser_measure p + 1 \<le> Suc n" for node p
  proof -
    have k: "bounded pm (parser_measure p)
        (bind (factor n p2) (\<lambda>(right, p3). term_loop n (Some (BinOp node tok right)) p3))"
      if "Suc (parser_measure p2) \<le> parser_measure p" for p2 tok
    proof -
      from that \<open>3 * parser_measure p + 1 \<le> Suc n\<close> have a: "3 * parser_measure p2 + 1 \<le> n" by simp
      show ?thesis
      proof (rule bounded_bind_pair [OF F [OF a]])
        fix right p3 assume "parser_measure p3 \<le> parser_measure p2"
        with a that TL [of p3 "Some (BinOp node tok right)"]
        show "bounded pm (parser_measure p) (term_loop n (Some (BinOp node tok right)) p3)"
          by (auto intro: bounded_weaken)
      qed
    qed
    have e: "bounded pm (parser_measure p)
        (bind (eat t p) (\<lambda>p2. bind (factor n p2) (\<lambda>(right, p3). term_loop n (Some (BinOp node tok right)) p3)))"
      if "t \<noteq> EOF" for t tok
      by (rule bounded_bind [OF bounded_eat [OF that]]) (rule k)
    show ?thesis
      using e [of MUL] e [of DIVIDE] by (auto simp: Let_def intro!: bounded_Return)
  qed
  have 4: "bounded pm (parser_measure p) (expr (Suc n) p)" if "3 * parser_measure p + 3 \<le> Suc n" for p
  proof -
    from that have a: "3 * parser_measure p + 2 \<le> n" by simp
    have "bounded pm (parser_measure p) (bind (term' n p) (\<lambda>(node, p1). expr_loop n node p1))"
    proof (rule bounded_bind_pair [OF T [OF a]])
      fix node p1 assume "parser_measure p1 \<le> parser_measure p"
      with a EL [of p1 node] show "bounded pm (parser_measure p) (expr_loop n node p1)"
        by (auto intro: bounded_weaken)
    qed
    then show ?thesis by simp
  qed
  have 5: "bounded pm (parser_measure p) (expr_loop (Suc n) node p)"
    if "3 * parser_measure p + 2 \<le> Suc n" for node p
  proof -
    have k: "bounded pm (parser_measure p)
        (bind (term' n p2) (\<lambda>(right, p3). expr_loop n (Some (BinOp node tok right)) p3))"
      if "Suc (parser_measure p2) \<le> parser_measure p" for p2 tok
    proof -
      from that \<open>3 * parser_measure p + 2 \<le> Suc n\<close> have a: "3 * parser_measure p2 + 2 \<le> n" by simp
      show ?thesis
      proof (rule bounded_bind_pair [OF T [OF a]])
        fix right p3 assume "parser_measure p3 \<le> parser_measure p2"
        with a that EL [of p3 "Some (BinOp node tok right)"]
        show "bounded pm (parser_measure p) (expr_loop n (Some (BinOp node tok right)) p3)"
          by (auto intro: bounded_weaken)
      qed
    qed
    have e: "bounded pm (parser_measure p)
        (bind (eat t p) (\<lambda>p2. bind (term' n p2) (\<lambda>(right, p3). expr_loop n (Some (BinOp node tok right)) p3)))"
      if "t \<noteq> EOF" for t tok
      by (rule bounded_bind [OF bounded_eat [OF that]]) (rule k)
    show ?thesis
      using e [of MINUS] e [of PLUS] by (auto simp: Let_def intro!: bounded_Return)
  qed
  from 1 2 3 4 5 show ?case by blast
qed

subsection \<open>A larger bound changes nothing\<close>

lemma bind_fuel_cong:
  assumes "bind m f \<noteq> OutOfFuel" "m \<noteq> OutOfFuel \<Longrightarrow> m' = m"
    "\<And>x. m = Return x \<Longrightarrow> f x \<noteq> OutOfFuel \<Longrightarrow> g x = f x"
  shows "bind m' g = bind m f"
  using assms by (cases m) auto

lemma parser_fuel_mono_aux:
  "(\<forall>p m. n \<le> m \<longrightarrow> factor n p \<noteq> OutOfFuel \<longrightarrow> factor m p = factor n p) \<and>
   (\<forall>p m. n \<le> m \<longrightarrow> term' n p \<noteq> OutOfFuel \<longrightarrow> term' m p = term' n p) \<and>
   (\<forall>node p m. n \<le> m \<longrightarrow> term_loop n node p \<noteq> OutOfFuel \<longrightarrow> term_loop m node p = term_loop n node p) \<and>
   (\<forall>p m. n \<le> m \<longrightarrow> expr n p \<noteq> OutOfFuel \<longrightarrow> expr m p = expr n p) \<and>
   (\<forall>node p m. n \<le> m \<longrightarrow> expr_loop n node p \<noteq> OutOfFuel \<longrightarrow> expr_loop m node p = expr_loop n node p)"
proof (induction n)
  case 0
  show ?case by simp
next
  case (Suc n)
  then have F: "\<And>p m. n \<le> m \<Longrightarrow> factor n p \<noteq> OutOfFuel \<Longrightarrow> factor m p = factor n p"
    and T: "\<And>p m. n \<le> m \<Longrightarrow> term' n p \<noteq> OutOfFuel \<Longrightarrow> term' m p = term' n p"
    and TL: "\<And>node p m. n \<le> m \<Longrightarrow> term_loop n node p \<noteq> OutOfFuel \<Longrightarrow> term_loop m node p = term_loop n node p"
    and E: "\<And>p m. n \<le> m \<Longrightarrow> expr n p \<noteq> OutOfFuel \<Longrightarrow> expr m p = expr n p"
    and EL: "\<And>node p m. n \<le> m \<Longrightarrow> expr_loop n node p \<noteq> OutOfFuel \<Longrightarrow> expr_loop m node p = expr_loop n node p"
    by blast+
  have 1: "factor m p = factor (Suc n) p" if "Suc n \<le> m" "factor (Suc n) p \<noteq> OutOfFuel" for p m
  proof -
    from that obtain k where m: "m = Suc k" and k: "n \<le> k" by (cases m) auto
    show ?thesis
      using that(2) unfolding m
      by (auto simp: Let_def F [OF k] E [OF k] intro!: bind_fuel_cong split: prod.splits)
  qed
  have 2: "term' m p = term' (Suc n) p" if "Suc n \<le> m" "term' (Suc n) p \<noteq> OutOfFuel" for p m
  proof -
    from that obtain k where m: "m = Suc k" and k: "n \<le> k" by (cases m) auto
    show ?thesis
      using that(2) unfolding m
      by (auto simp: Let_def F [OF k] TL [OF k] intro!: bind_fuel_cong split: prod.splits)
  qed
  have 3: "term_loop m node p = term_loop (Suc n) node p"
    if "Suc n \<le> m" "term_loop (Suc n) node p \<noteq> OutOfFuel" for node p m
  proof -
    from that obtain k where m: "m = Suc k" and k: "n \<le> k" by (cases m) auto
    show ?thesis
      using that(2) unfolding m
      by (auto simp: Let_def F [OF k] TL [OF k] intro!: bind_fuel_cong split: prod.splits)
  qed
  have 4: "expr m p = expr (Suc n) p" if "Suc n \<le> m" "expr (Suc n) p \<noteq> OutOfFuel" for p m
  proof -
    from that obtain k where m: "m = Suc k" and k: "n \<le> k" by (cases m) auto
    show ?thesis
      using that(2) unfolding m
      by (auto simp: Let_def T [OF k] EL [OF k] intro!: bind_fuel_cong split: prod.splits)
  qed
  have 5: "expr_loop m node p = expr_loop (Suc n) node p"
    if "Suc n \<le> m" "expr_loop (Suc n) node p \<noteq> OutOfFuel" for node p m
  proof -
    from that obtain k where m: "m = Suc k" and k: "n \<le> k" by (cases m) auto
    show ?thesis
      using that(2) unfolding m
      by (auto simp: Let_def T [OF k] EL [OF k] intro!: bind_fuel_cong split: prod.splits)
  qed
  from 1 2 3 4 5 show ?case by blast
qed

section \<open>The parser without the bound\<close>

text \<open>
  With a bound that is large enough for its state, each function of the parser gives
  the same outcome whatever the bound is. \<open>run_factor\<close>, \<open>run_term\<close> and the others
  are the functions at such a bound; they satisfy the recursion equations of the source
  as they stand.
\<close>

definition fuel_for :: "Parser \<Rightarrow> nat" where
  "fuel_for p = 3 * parser_measure p + 3"

definition run_factor :: "Parser \<Rightarrow> (AST option \<times> Parser) outcome" where
  "run_factor p = factor (fuel_for p) p"

definition run_term :: "Parser \<Rightarrow> (AST option \<times> Parser) outcome" where
  "run_term p = term' (fuel_for p) p"

definition run_term_loop :: "AST option \<Rightarrow> Parser \<Rightarrow> (AST option \<times> Parser) outcome" where
  "run_term_loop node p = term_loop (fuel_for p) node p"

definition run_expr :: "Parser \<Rightarrow> (AST option \<times> Parser) outcome" where
  "run_expr p = expr (fuel_for p) p"

definition run_expr_loop :: "AST option \<Rightarrow> Parser \<Rightarrow> (AST option \<times> Parser) outcome" where
  "run_expr_loop node p = expr_loop (fuel_for p) node p"

lemma factor_stable: "3 * parser_measure p + 1 \<le> n \<Longrightarrow> factor n p = run_factor p"
proof -
  assume n: "3 * parser_measure p + 1 \<le> n"
  let ?k = "3 * parser_measure p + 1"
  have d: "factor ?k p \<noteq> OutOfFuel"
    using parser_fuel_suffices_aux [of ?k] by (simp add: bounded_def)
  have "factor n p = factor ?k p" using parser_fuel_mono_aux [of ?k] n d by blast
  moreover have "factor (fuel_for p) p = factor ?k p"
    using parser_fuel_mono_aux [of ?k] d by (simp add: fuel_for_def)
  ultimately show ?thesis by (simp add: run_factor_def)
qed

lemma term_stable: "3 * parser_measure p + 2 \<le> n \<Longrightarrow> term' n p = run_term p"
proof -
  assume n: "3 * parser_measure p + 2 \<le> n"
  let ?k = "3 * parser_measure p + 2"
  have d: "term' ?k p \<noteq> OutOfFuel"
    using parser_fuel_suffices_aux [of ?k] by (simp add: bounded_def)
  have "term' n p = term' ?k p" using parser_fuel_mono_aux [of ?k] n d by blast
  moreover have "term' (fuel_for p) p = term' ?k p"
    using parser_fuel_mono_aux [of ?k] d by (simp add: fuel_for_def)
  ultimately show ?thesis by (simp add: run_term_def)
qed

lemma term_loop_stable:
  "3 * parser_measure p + 1 \<le> n \<Longrightarrow> term_loop n node p = run_term_loop node p"
proof -
  assume n: "3 * parser_measure p + 1 \<le> n"
  let ?k = "3 * parser_measure p + 1"
  have d: "term_loop ?k node p \<noteq> OutOfFuel"
    using parser_fuel_suffices_aux [of ?k] by (simp add: bounded_def)
  have "term_loop n node p = term_loop ?k node p" using parser_fuel_mono_aux [of ?k] n d by blast
  moreover have "term_loop (fuel_for p) node p = term_loop ?k node p"
    using parser_fuel_mono_aux [of ?k] d by (simp add: fuel_for_def)
  ultimately show ?thesis by (simp add: run_term_loop_def)
qed

lemma expr_stable: "3 * parser_measure p + 3 \<le> n \<Longrightarrow> expr n p = run_expr p"
proof -
  assume n: "3 * parser_measure p + 3 \<le> n"
  let ?k = "3 * parser_measure p + 3"
  have d: "expr ?k p \<noteq> OutOfFuel"
    using parser_fuel_suffices_aux [of ?k] by (simp add: bounded_def)
  have "expr n p = expr ?k p" using parser_fuel_mono_aux [of ?k] n d by blast
  then show ?thesis by (simp add: run_expr_def fuel_for_def)
qed

lemma expr_loop_stable:
  "3 * parser_measure p + 2 \<le> n \<Longrightarrow> expr_loop n node p = run_expr_loop node p"
proof -
  assume n: "3 * parser_measure p + 2 \<le> n"
  let ?k = "3 * parser_measure p + 2"
  have d: "expr_loop ?k node p \<noteq> OutOfFuel"
    using parser_fuel_suffices_aux [of ?k] by (simp add: bounded_def)
  have "expr_loop n node p = expr_loop ?k node p" using parser_fuel_mono_aux [of ?k] n d by blast
  moreover have "expr_loop (fuel_for p) node p = expr_loop ?k node p"
    using parser_fuel_mono_aux [of ?k] d by (simp add: fuel_for_def)
  ultimately show ?thesis by (simp add: run_expr_loop_def)
qed

lemma run_factor_bounded: "bounded pm (parser_measure p) (run_factor p)"
  using parser_fuel_suffices_aux [of "fuel_for p"] by (simp add: run_factor_def fuel_for_def)

lemma run_term_bounded: "bounded pm (parser_measure p) (run_term p)"
  using parser_fuel_suffices_aux [of "fuel_for p"] by (simp add: run_term_def fuel_for_def)

lemma run_term_loop_bounded: "bounded pm (parser_measure p) (run_term_loop node p)"
  using parser_fuel_suffices_aux [of "fuel_for p"] by (simp add: run_term_loop_def fuel_for_def)


lemma run_expr_loop_bounded: "bounded pm (parser_measure p) (run_expr_loop node p)"
  using parser_fuel_suffices_aux [of "fuel_for p"] by (simp add: run_expr_loop_def fuel_for_def)

lemma bind_cong_Return:
  "(\<And>x. m = Return x \<Longrightarrow> f x = g x) \<Longrightarrow> bind m f = bind m g"
  by (cases m) auto

lemma eat_Return_measure:
  "eat t p = Return p1 \<Longrightarrow> t \<noteq> EOF \<Longrightarrow> Suc (parser_measure p1) \<le> parser_measure p"
  using eat_measure [of t p p1] by simp

lemma run_factor_unfold:
  "run_factor p =
     (let token = currentToken p in
      if token_type token = PLUS then
        bind (eat PLUS p) (\<lambda>p1.
        bind (run_factor p1) (\<lambda>(operand, p2).
        Return (Some (UnaryOp token operand), p2)))
      else if token_type token = MINUS then
        bind (eat MINUS p) (\<lambda>p1.
        bind (run_factor p1) (\<lambda>(operand, p2).
        Return (Some (UnaryOp token operand), p2)))
      else if token_type token = INTEGER then
        bind (eat INTEGER p) (\<lambda>p1.
        Return (Some (new_Num token), p1))
      else if token_type token = LPAREN then
        bind (eat LPAREN p) (\<lambda>p1.
        bind (run_expr p1) (\<lambda>(result, p2).
        bind (eat RPAREN p2) (\<lambda>p3.
        Return (result, p3))))
      else Return (None, p))"
proof -
  define k where "k = 3 * parser_measure p + 2"
  have fk: "fuel_for p = Suc k" by (simp add: fuel_for_def k_def)
  have f: "factor k p1 = run_factor p1" if "eat t p = Return p1" "t \<noteq> EOF" for t p1
    using eat_Return_measure [OF that] by (intro factor_stable) (simp add: k_def)
  have e: "expr k p1 = run_expr p1" if "eat t p = Return p1" "t \<noteq> EOF" for t p1
    using eat_Return_measure [OF that] by (intro expr_stable) (simp add: k_def)
  have "run_factor p = factor (Suc k) p" unfolding run_factor_def fk ..
  then show ?thesis
    by (auto simp: Let_def f e intro!: bind_cong_Return)
qed

lemma run_term_unfold:
  "run_term p = bind (run_factor p) (\<lambda>(node, p1). run_term_loop node p1)"
proof -
  define k where "k = 3 * parser_measure p + 2"
  have fk: "fuel_for p = Suc k" by (simp add: fuel_for_def k_def)
  have f: "factor k p = run_factor p" by (intro factor_stable) (simp add: k_def)
  have tl: "term_loop k node p1 = run_term_loop node p1"
    if "run_factor p = Return (node, p1)" for node p1
    using run_factor_bounded [of p] that
    by (intro term_loop_stable) (simp add: bounded_def k_def)
  have "run_term p = term' (Suc k) p" unfolding run_term_def fk ..
  also have "\<dots> = bind (run_factor p) (\<lambda>(node, p1). term_loop k node p1)"
    by (simp add: f)
  also have "\<dots> = bind (run_factor p) (\<lambda>(node, p1). run_term_loop node p1)"
    by (auto intro!: bind_cong_Return simp: tl)
  finally show ?thesis .
qed

lemma run_term_loop_unfold:
  "run_term_loop node p =
     (if token_type (currentToken p) \<in> set [MUL, DIVIDE] then
        (let token = currentToken p in
         bind (if token_type token = MUL then eat MUL p else Return p) (\<lambda>p1.
         bind (if token_type token = DIVIDE then eat DIVIDE p1 else Return p1) (\<lambda>p2.
         bind (run_factor p2) (\<lambda>(right, p3).
         run_term_loop (Some (BinOp node token right)) p3))))
      else Return (node, p))"
proof -
  define k where "k = 3 * parser_measure p + 2"
  have fk: "fuel_for p = Suc k" by (simp add: fuel_for_def k_def)
  have k: "bind (factor k p2) (\<lambda>(right, p3). term_loop k (Some (BinOp node tok right)) p3) =
           bind (run_factor p2) (\<lambda>(right, p3). run_term_loop (Some (BinOp node tok right)) p3)"
    if "eat t p = Return p2" "t \<noteq> EOF" for t p2 tok
  proof -
    from eat_Return_measure [OF that] have m: "Suc (parser_measure p2) \<le> parser_measure p" .
    then have "factor k p2 = run_factor p2" by (intro factor_stable) (simp add: k_def)
    moreover have "term_loop k nd p3 = run_term_loop nd p3"
      if "run_factor p2 = Return (right, p3)" for right p3 nd
      using run_factor_bounded [of p2] that m by (intro term_loop_stable) (simp add: bounded_def k_def)
    ultimately show ?thesis by (auto intro!: bind_cong_Return)
  qed
  have "run_term_loop node p = term_loop (Suc k) node p"
    unfolding run_term_loop_def fk ..
  then show ?thesis
    by (auto simp: Let_def k intro!: bind_cong_Return)
qed

lemma run_expr_unfold:
  "run_expr p = bind (run_term p) (\<lambda>(node, p1). run_expr_loop node p1)"
proof -
  define k where "k = 3 * parser_measure p + 2"
  have fk: "fuel_for p = Suc k" by (simp add: fuel_for_def k_def)
  have t: "term' k p = run_term p" by (intro term_stable) (simp add: k_def)
  have el: "expr_loop k node p1 = run_expr_loop node p1"
    if "run_term p = Return (node, p1)" for node p1
    using run_term_bounded [of p] that
    by (intro expr_loop_stable) (simp add: bounded_def k_def)
  have "run_expr p = expr (Suc k) p" unfolding run_expr_def fk ..
  also have "\<dots> = bind (run_term p) (\<lambda>(node, p1). expr_loop k node p1)"
    by (simp add: t)
  also have "\<dots> = bind (run_term p) (\<lambda>(node, p1). run_expr_loop node p1)"
    by (auto intro!: bind_cong_Return simp: el)
  finally show ?thesis .
qed

lemma run_expr_loop_unfold:
  "run_expr_loop node p =
     (if token_type (currentToken p) \<in> set [MINUS, PLUS] then
        (let token = currentToken p in
         bind (if token_type token = MINUS then eat MINUS p else Return p) (\<lambda>p1.
         bind (if token_type token = PLUS then eat PLUS p1 else Return p1) (\<lambda>p2.
         bind (run_term p2) (\<lambda>(right, p3).
         run_expr_loop (Some (BinOp node token right)) p3))))
      else Return (node, p))"
proof -
  define k where "k = 3 * parser_measure p + 2"
  have fk: "fuel_for p = Suc k" by (simp add: fuel_for_def k_def)
  have k: "bind (term' k p2) (\<lambda>(right, p3). expr_loop k (Some (BinOp node tok right)) p3) =
           bind (run_term p2) (\<lambda>(right, p3). run_expr_loop (Some (BinOp node tok right)) p3)"
    if "eat t p = Return p2" "t \<noteq> EOF" for t p2 tok
  proof -
    from eat_Return_measure [OF that] have m: "Suc (parser_measure p2) \<le> parser_measure p" .
    then have "term' k p2 = run_term p2" by (intro term_stable) (simp add: k_def)
    moreover have "expr_loop k nd p3 = run_expr_loop nd p3"
      if "run_term p2 = Return (right, p3)" for right p3 nd
      using run_term_bounded [of p2] that m by (intro expr_loop_stable) (simp add: bounded_def k_def)
    ultimately show ?thesis by (auto intro!: bind_cong_Return)
  qed
  have "run_expr_loop node p = expr_loop (Suc k) node p"
    unfolding run_expr_loop_def fk ..
  then show ?thesis
    by (auto simp: Let_def k intro!: bind_cong_Return)
qed

section \<open>The whole run\<close>

lemma lexer_measure_new: "lexer_measure (new_Lexer s) = length s"
  by (cases s) (auto simp: lexer_measure_def new_Lexer_def char_at_def)

lemma new_Parser_measure:
  assumes "new_Parser lx = Return p"
  shows "parser_measure p \<le> lexer_measure lx"
proof -
  from assms obtain tok lx' where n: "nextToken lx = Return (tok, lx')"
    and p: "p = \<lparr>lexer = lx', currentToken = tok\<rparr>"
    by (cases "nextToken lx") (auto simp: new_Parser_def)
  from nextToken_measure [OF n] show ?thesis by (auto simp: parser_measure_def p)
qed


definition run_interpret :: "Parser \<Rightarrow> jsval outcome" where
  "run_interpret p = bind (run_expr p) (\<lambda>(tree, p'). Return (visit tree))"

lemma evaluate_run:
  "evaluate input = bind (new_Parser (new_Lexer input)) run_interpret"
proof -
  have "interpret' (parser_fuel input) p = run_interpret p"
    if "new_Parser (new_Lexer input) = Return p" for p
  proof -
    from new_Parser_measure [OF that] have "parser_measure p \<le> length input"
      by (simp add: lexer_measure_new)
    then have "expr (parser_fuel input) p = run_expr p"
      by (intro expr_stable) (simp add: parser_fuel_def)
    then show ?thesis by (simp add: interpret'_def parse_def run_interpret_def)
  qed
  then show ?thesis unfolding evaluate_def by (auto intro!: bind_cong_Return)
qed



section \<open>The lexer, by the text that is left\<close>

text \<open>
  \<open>lexer_at s k\<close> is the lexer over the text \<open>s\<close> at position \<open>k\<close>. What
  \<open>nextToken\<close> returns there depends on \<open>drop k s\<close> only: the text from \<open>k\<close> on.
\<close>

definition lexer_at :: "string \<Rightarrow> nat \<Rightarrow> Lexer" where
  "lexer_at s k = \<lparr>text' = s, pos = k, currentChar = char_at s k\<rparr>"

lemma new_Lexer_at: "new_Lexer s = lexer_at s 0"
  by (simp add: new_Lexer_def lexer_at_def)

lemma advance_at: "advance (lexer_at s k) = lexer_at s (Suc k)"
  by (auto simp: advance_def lexer_at_def char_at_def Let_def)

lemma char_at_drop: "char_at s k = (case drop k s of [] \<Rightarrow> None | c # _ \<Rightarrow> Some c)"
proof (cases "k < length s")
  case True
  then have "drop k s = s ! k # drop (Suc k) s" by (simp add: Cons_nth_drop_Suc)
  with True show ?thesis by (simp add: char_at_def)
next
  case False
  then show ?thesis by (simp add: char_at_def)
qed

lemma drop_Suc_Cons_eq: "drop k s = c # r \<Longrightarrow> drop (Suc k) s = r"
  by (metis drop_Suc tl_drop list.sel(3))

lemma currentChar_at: "currentChar (lexer_at s k) = char_at s k"
  by (simp add: lexer_at_def)

lemma skipWhitespace_at:
  "drop k s = replicate n CHR '' '' @ r \<Longrightarrow> (r = [] \<or> hd r \<noteq> CHR '' '') \<Longrightarrow>
   skipWhitespace (lexer_at s k) = lexer_at s (k + n)"
proof (induction n arbitrary: k)
  case 0
  then show ?case
    by (subst skipWhitespace.simps) (auto simp: currentChar_at char_at_drop split: list.splits)
next
  case (Suc n)
  from Suc.prems have d: "drop (Suc k) s = replicate n CHR '' '' @ r"
    by (intro drop_Suc_Cons_eq [of k s "CHR '' ''"]) simp
  from Suc.prems have "currentChar (lexer_at s k) = Some CHR '' ''"
    by (simp add: currentChar_at char_at_drop)
  then have "skipWhitespace (lexer_at s k) = skipWhitespace (lexer_at s (Suc k))"
    by (subst skipWhitespace.simps) (simp add: advance_at)
  with Suc.IH [OF d Suc.prems(2)] show ?case by simp
qed

lemma is_digit_parseFloat: "isNaN (parseFloat [c]) = (\<not> is_digit c)"
  by (simp add: isNaN_def parseFloat_def round64_not_NaN)

lemma integer_loop_at:
  "drop k s = ds @ r \<Longrightarrow> \<forall>c\<in>set ds. is_digit c \<Longrightarrow> (r = [] \<or> \<not> is_digit (hd r)) \<Longrightarrow>
   integer_loop acc (lexer_at s k) = (acc @ ds, lexer_at s (k + length ds))"
proof (induction ds arbitrary: k acc)
  case Nil
  then show ?case
    by (subst integer_loop.simps)
      (auto simp: currentChar_at char_at_drop is_digit_parseFloat split: list.splits)
next
  case (Cons d ds)
  from Cons.prems have dr: "drop (Suc k) s = ds @ r"
    by (intro drop_Suc_Cons_eq [of k s d]) simp
  from Cons.prems have "currentChar (lexer_at s k) = Some d" "is_digit d"
    by (simp_all add: currentChar_at char_at_drop)
  then have "integer_loop acc (lexer_at s k) = integer_loop (acc @ [d]) (lexer_at s (Suc k))"
    by (subst integer_loop.simps) (simp add: advance_at is_digit_parseFloat)
  with Cons.IH [OF dr, of "acc @ [d]"] Cons.prems show ?case by simp
qed

definition pstate :: "string \<Rightarrow> nat \<Rightarrow> Token \<Rightarrow> Parser" where
  "pstate s k tok = \<lparr>lexer = lexer_at s k, currentToken = tok\<rparr>"

definition parser_at :: "string \<Rightarrow> nat \<Rightarrow> Parser outcome" where
  "parser_at s k = new_Parser (lexer_at s k)"

lemma currentToken_pstate [simp]: "currentToken (pstate s k tok) = tok"
  by (simp add: pstate_def)

lemma eat_pstate:
  "eat t (pstate s k tok) = (if token_type tok = t then parser_at s k else Throw UnexpectedToken)"
  by (simp add: eat_def pstate_def parser_at_def new_Parser_def)

definition is_op_char :: "char \<Rightarrow> bool" where
  "is_op_char c = (c \<in> set ''()+-*/'')"

definition op_token :: "char \<Rightarrow> Token" where
  "op_token c =
     (if c = CHR ''('' then Token LPAREN (StrVal ''('')
      else if c = CHR '')'' then Token RPAREN (StrVal '')'')
      else if c = CHR ''+'' then Token PLUS (StrVal ''+'')
      else if c = CHR ''-'' then Token MINUS (StrVal ''-'')
      else if c = CHR ''*'' then Token MUL (StrVal ''*'')
      else Token DIVIDE (StrVal ''/''))"

definition legal_char :: "char \<Rightarrow> bool" where
  "legal_char c = (is_digit c \<or> c = CHR '' '' \<or> is_op_char c)"


lemma nextToken_end: "drop k s = [] \<Longrightarrow> nextToken (lexer_at s k) = Return (Token EOF NoVal, lexer_at s k)"
  by (subst nextToken.simps) (simp add: currentChar_at char_at_drop)

lemma spaces_split:
  "\<exists>n r'. r = replicate n CHR '' '' @ r' \<and> (r' = [] \<or> hd r' \<noteq> CHR '' '')"
proof (induction r)
  case Nil
  show ?case by simp
next
  case (Cons c r)
  show ?case
  proof (cases "c = CHR '' ''")
    case True
    from Cons obtain n r' where "r = replicate n CHR '' '' @ r'" "r' = [] \<or> hd r' \<noteq> CHR '' ''"
      by blast
    with True have "c # r = replicate (Suc n) CHR '' '' @ r'" by simp
    with \<open>r' = [] \<or> hd r' \<noteq> CHR '' ''\<close> show ?thesis by blast
  next
    case False
    then have "c # r = replicate 0 CHR '' '' @ (c # r) \<and> (c # r = [] \<or> hd (c # r) \<noteq> CHR '' '')"
      by simp
    then show ?thesis by blast
  qed
qed

lemma nextToken_space:
  assumes "drop k s = CHR '' '' # r"
  shows "nextToken (lexer_at s k) = nextToken (lexer_at s (Suc k))"
proof -
  from spaces_split [of r] obtain n r' where
    r: "r = replicate n CHR '' '' @ r'" "r' = [] \<or> hd r' \<noteq> CHR '' ''" by blast
  have d1: "drop k s = replicate (Suc n) CHR '' '' @ r'" using assms r by simp
  have d2: "drop (Suc k) s = replicate n CHR '' '' @ r'"
    using drop_Suc_Cons_eq [OF assms] r by simp
  have a: "skipWhitespace (lexer_at s k) = lexer_at s (k + Suc n)"
    using d1 r(2) by (rule skipWhitespace_at)
  have b: "skipWhitespace (lexer_at s (Suc k)) = lexer_at s (Suc k + n)"
    using d2 r(2) by (rule skipWhitespace_at)
  have "nextToken (lexer_at s k) = nextToken (skipWhitespace (lexer_at s k))"
    using assms by (subst nextToken.simps) (simp add: currentChar_at char_at_drop)
  also have "\<dots> = nextToken (lexer_at s (Suc k + n))" by (simp add: a)
  finally have l: "nextToken (lexer_at s k) = nextToken (lexer_at s (Suc k + n))" .
  show ?thesis
  proof (cases n)
    case 0
    with l show ?thesis by simp
  next
    case (Suc m)
    with d2 have "drop (Suc k) s = CHR '' '' # (replicate m CHR '' '' @ r')" by simp
    then have "nextToken (lexer_at s (Suc k)) = nextToken (skipWhitespace (lexer_at s (Suc k)))"
      by (subst nextToken.simps) (simp add: currentChar_at char_at_drop)
    with l b show ?thesis by simp
  qed
qed

lemma nextToken_op:
  assumes "drop k s = c # r" "is_op_char c"
  shows "nextToken (lexer_at s k) = Return (op_token c, lexer_at s (Suc k))"
  using assms
  by (subst nextToken.simps)
    (auto simp: currentChar_at char_at_drop is_op_char_def op_token_def advance_at
      is_digit_parseFloat is_digit_def)

lemma nextToken_bad:
  assumes "drop k s = c # r" "\<not> legal_char c"
  shows "nextToken (lexer_at s k) = Throw InvalidCharacter"
  using assms
  by (subst nextToken.simps)
    (auto simp: currentChar_at char_at_drop is_op_char_def legal_char_def
      is_digit_parseFloat)

lemma nextToken_digits:
  assumes "drop k s = ds @ r" "ds \<noteq> []" "\<forall>c\<in>set ds. is_digit c" "r = [] \<or> \<not> is_digit (hd r)"
  shows "nextToken (lexer_at s k) =
    Return (Token INTEGER (NumVal (parseFloat ds)), lexer_at s (k + length ds))"
proof -
  from assms obtain d ds' where ds: "ds = d # ds'" by (cases ds) auto
  with assms have c: "currentChar (lexer_at s k) = Some d" "is_digit d"
    by (simp_all add: currentChar_at char_at_drop)
  then have "d \<noteq> CHR '' ''" by (auto simp: is_digit_def)
  moreover have "integer (lexer_at s k) = (parseFloat ds, lexer_at s (k + length ds))"
    using integer_loop_at [OF assms(1,3,4), of "[]"] by (simp add: integer_def)
  ultimately show ?thesis
    using c by (subst nextToken.simps) (simp add: is_digit_parseFloat)
qed

section \<open>The parser, by the text that is left\<close>

text \<open>
  \<open>parser_at s k\<close> pulls the token that starts at position \<open>k\<close> of the text \<open>s\<close>
  (after spaces) and is the parser with that token as its lookahead; every \<open>eat\<close> of
  a parser over \<open>s\<close> is such a pull.
\<close>

lemma parser_at_end: "drop k s = [] \<Longrightarrow> parser_at s k = Return (pstate s k (Token EOF NoVal))"
  by (simp add: parser_at_def new_Parser_def nextToken_end pstate_def)

lemma parser_at_space: "drop k s = CHR '' '' # r \<Longrightarrow> parser_at s k = parser_at s (Suc k)"
  by (simp add: parser_at_def new_Parser_def nextToken_space)

lemma parser_at_op:
  "drop k s = c # r \<Longrightarrow> is_op_char c \<Longrightarrow> parser_at s k = Return (pstate s (Suc k) (op_token c))"
  by (simp add: parser_at_def new_Parser_def nextToken_op pstate_def)

lemma parser_at_bad:
  "drop k s = c # r \<Longrightarrow> \<not> legal_char c \<Longrightarrow> parser_at s k = Throw InvalidCharacter"
  by (simp add: parser_at_def new_Parser_def nextToken_bad)

lemma parser_at_digits:
  "drop k s = ds @ r \<Longrightarrow> ds \<noteq> [] \<Longrightarrow> \<forall>c\<in>set ds. is_digit c \<Longrightarrow> r = [] \<or> \<not> is_digit (hd r) \<Longrightarrow>
   parser_at s k = Return (pstate s (k + length ds) (Token INTEGER (NumVal (parseFloat ds))))"
  by (simp add: parser_at_def new_Parser_def nextToken_digits pstate_def)

lemma evaluate_at: "evaluate input = bind (parser_at input 0) run_interpret"
  by (simp add: evaluate_run parser_at_def new_Lexer_at)

lemma bind_assoc: "bind (bind m f) g = bind m (\<lambda>x. bind (f x) g)"
  by (cases m) auto

lemma bind_Return_right: "bind m Return = m"
  by (cases m) auto

section \<open>Chains of unary operators\<close>

fun nest :: "string \<Rightarrow> AST \<Rightarrow> AST" where
  "nest [] t = t"
| "nest (c # cs) t = UnaryOp (op_token c) (Some (nest cs t))"

fun apply_signs :: "string \<Rightarrow> jsnum \<Rightarrow> jsnum" where
  "apply_signs [] x = x"
| "apply_signs (c # cs) x = (if c = CHR ''-'' then js_neg (apply_signs cs x) else apply_signs cs x)"

lemma run_factor_digits:
  assumes "drop k s = ds @ r" "ds \<noteq> []" "\<forall>c\<in>set ds. is_digit c" "r = [] \<or> \<not> is_digit (hd r)"
  shows "bind (parser_at s k) run_factor =
    bind (parser_at s (k + length ds))
      (\<lambda>p. Return (Some (new_Num (Token INTEGER (NumVal (parseFloat ds)))), p))"
  by (subst parser_at_digits [OF assms]) (simp add: run_factor_unfold eat_pstate)

lemma run_factor_signs:
  assumes "set signs \<subseteq> {CHR ''+'', CHR ''-''}"
    and "drop k s = signs @ ds @ r" "ds \<noteq> []" "\<forall>c\<in>set ds. is_digit c" "r = [] \<or> \<not> is_digit (hd r)"
  shows "bind (parser_at s k) run_factor =
    bind (parser_at s (k + length signs + length ds))
      (\<lambda>p. Return (Some (nest signs (new_Num (Token INTEGER (NumVal (parseFloat ds))))), p))"
  using assms(1,2)
proof (induction signs arbitrary: k)
  case Nil
  then show ?case using assms(3-5) by (simp add: run_factor_digits)
next
  case (Cons c cs)
  from Cons.prems have c: "c = CHR ''+'' \<or> c = CHR ''-''" and cs: "set cs \<subseteq> {CHR ''+'', CHR ''-''}"
    by auto
  from Cons.prems have d: "drop k s = c # (cs @ ds @ r)" by simp
  then have d': "drop (Suc k) s = cs @ ds @ r" by (rule drop_Suc_Cons_eq)
  from c have oc: "is_op_char c" by (auto simp: is_op_char_def)
  from c have tt: "token_type (op_token c) = PLUS \<or> token_type (op_token c) = MINUS"
    by (auto simp: op_token_def)
  have "bind (parser_at s k) run_factor =
    bind (bind (parser_at s (Suc k)) run_factor)
      (\<lambda>(operand, p2). Return (Some (UnaryOp (op_token c) operand), p2))"
    by (simp add: parser_at_op [OF d oc], subst run_factor_unfold, insert tt)
      (auto simp: eat_pstate bind_assoc Let_def)
  also have "\<dots> = bind (parser_at s (Suc k + length cs + length ds))
      (\<lambda>p. Return (Some (nest (c # cs) (new_Num (Token INTEGER (NumVal (parseFloat ds))))), p))"
    by (subst Cons.IH [OF cs d']) (simp add: bind_assoc)
  finally show ?case by simp
qed

lemma visit_nest:
  assumes "set signs \<subseteq> {CHR ''+'', CHR ''-''}" "visit (Some t) = Number x"
  shows "visit (Some (nest signs t)) = Number (apply_signs signs x)"
  using assms by (induction signs) (auto simp: op_token_def)

lemma run_term_loop_stop:
  "token_type tok \<notin> {MUL, DIVIDE} \<Longrightarrow> run_term_loop node (pstate s k tok) = Return (node, pstate s k tok)"
  by (subst run_term_loop_unfold) simp

lemma run_expr_loop_stop:
  "token_type tok \<notin> {MINUS, PLUS} \<Longrightarrow> run_expr_loop node (pstate s k tok) = Return (node, pstate s k tok)"
  by (subst run_expr_loop_unfold) simp

lemma run_interpret_factor:
  "run_interpret p = bind (run_factor p) (\<lambda>(node, p1). bind (run_term_loop node p1)
     (\<lambda>(node, p2). bind (run_expr_loop node p2) (\<lambda>(tree, p'). Return (visit tree))))"
  by (simp add: run_interpret_def run_expr_unfold run_term_unfold bind_assoc split_def)

lemma unary_chain:
  assumes "set signs \<subseteq> {CHR ''+'', CHR ''-''}" "ds \<noteq> []" "\<forall>c\<in>set ds. is_digit c"
  shows "evaluate (signs @ ds) = Return (Number (apply_signs signs (parseFloat ds)))"
proof -
  let ?s = "signs @ ds"
  have d: "drop 0 ?s = signs @ ds @ []" by simp
  have e: "drop (length signs + length ds) ?s = []" by simp
  have v: "visit (Some (new_Num (Token INTEGER (NumVal (parseFloat ds))))) = Number (parseFloat ds)"
    by (simp add: new_Num_def)
  have "evaluate ?s = bind (bind (parser_at ?s 0) run_factor) (\<lambda>(node, p1). bind (run_term_loop node p1)
     (\<lambda>(node, p2). bind (run_expr_loop node p2) (\<lambda>(tree, p'). Return (visit tree))))"
    by (simp add: evaluate_at bind_assoc run_interpret_factor [abs_def])
  also have "bind (parser_at ?s 0) run_factor = bind (parser_at ?s (0 + length signs + length ds))
      (\<lambda>p. Return (Some (nest signs (new_Num (Token INTEGER (NumVal (parseFloat ds))))), p))"
    using assms(1) d assms(2,3) by (rule run_factor_signs) simp
  finally show ?thesis
    using visit_nest [OF assms(1) v]
    by (simp add: parser_at_end [OF e] run_term_loop_stop run_expr_loop_stop)
qed

section \<open>The tree of a text\<close>

text \<open>
  \<open>parse_text\<close> is \<open>main\<close> up to the tree that \<open>Parser.parse\<close> returns; \<open>evaluate\<close>
  visits that tree.
\<close>

definition parse_text :: "string \<Rightarrow> AST option outcome" where
  "parse_text input =
     bind (new_Parser (new_Lexer input)) (\<lambda>parser.
     bind (parse (parser_fuel input) parser) (\<lambda>(tree, p'). Return tree))"

lemma evaluate_parse_text: "evaluate input = bind (parse_text input) (\<lambda>tree. Return (visit tree))"
  by (simp add: evaluate_def parse_text_def interpret'_def bind_assoc split_def)

lemma parse_text_at:
  "parse_text input = bind (parser_at input 0) (\<lambda>p. bind (run_expr p) (\<lambda>(tree, p'). Return tree))"
proof -
  have "parse (parser_fuel input) p = run_expr p"
    if "new_Parser (new_Lexer input) = Return p" for p
  proof -
    from new_Parser_measure [OF that] have "parser_measure p \<le> length input"
      by (simp add: lexer_measure_new)
    then show ?thesis unfolding parse_def by (intro expr_stable) (simp add: parser_fuel_def)
  qed
  then show ?thesis
    unfolding parse_text_def parser_at_def new_Lexer_at [symmetric]
    by (auto intro!: bind_cong_Return)
qed

lemma unary_chain_tree:
  assumes "set signs \<subseteq> {CHR ''+'', CHR ''-''}" "ds \<noteq> []" "\<forall>c\<in>set ds. is_digit c"
  shows "parse_text (signs @ ds) =
    Return (Some (nest signs (new_Num (Token INTEGER (NumVal (parseFloat ds))))))"
proof -
  let ?s = "signs @ ds"
  have d: "drop 0 ?s = signs @ ds @ []" by simp
  have e: "drop (length signs + length ds) ?s = []" by simp
  have "parse_text ?s = bind (bind (parser_at ?s 0) run_factor) (\<lambda>(node, p1). bind (run_term_loop node p1)
     (\<lambda>(node, p2). bind (run_expr_loop node p2) (\<lambda>(tree, p'). Return tree)))"
    by (simp add: parse_text_at run_expr_unfold run_term_unfold bind_assoc split_def)
  also have "bind (parser_at ?s 0) run_factor = bind (parser_at ?s (0 + length signs + length ds))
      (\<lambda>p. Return (Some (nest signs (new_Num (Token INTEGER (NumVal (parseFloat ds))))), p))"
    using assms(1) d assms(2,3) by (rule run_factor_signs) simp
  finally show ?thesis
    by (simp add: parser_at_end [OF e] run_term_loop_stop run_expr_loop_stop)
qed

lemma run_term_loop_pstate:
  "run_term_loop node (pstate s k tok) =
     (if token_type tok = MUL \<or> token_type tok = DIVIDE then
        bind (parser_at s k) (\<lambda>p2. bind (run_factor p2) (\<lambda>(right, p3).
          run_term_loop (Some (BinOp node tok right)) p3))
      else Return (node, pstate s k tok))"
  by (subst run_term_loop_unfold) (auto simp: eat_pstate Let_def)

lemma run_expr_loop_pstate:
  "run_expr_loop node (pstate s k tok) =
     (if token_type tok = MINUS \<or> token_type tok = PLUS then
        bind (parser_at s k) (\<lambda>p2. bind (run_term p2) (\<lambda>(right, p3).
          run_expr_loop (Some (BinOp node tok right)) p3))
      else Return (node, pstate s k tok))"
  by (subst run_expr_loop_unfold) (auto simp: eat_pstate Let_def)

lemma run_factor_pstate:
  "run_factor (pstate s k tok) =
     (if token_type tok = PLUS \<or> token_type tok = MINUS then
        bind (parser_at s k) (\<lambda>p1. bind (run_factor p1) (\<lambda>(operand, p2).
          Return (Some (UnaryOp tok operand), p2)))
      else if token_type tok = INTEGER then
        bind (parser_at s k) (\<lambda>p1. Return (Some (new_Num tok), p1))
      else if token_type tok = LPAREN then
        bind (parser_at s k) (\<lambda>p1. bind (run_expr p1) (\<lambda>(result, p2).
          bind (eat RPAREN p2) (\<lambda>p3. Return (result, p3))))
      else Return (None, pstate s k tok))"
  by (subst run_factor_unfold) (auto simp: eat_pstate Let_def)

lemma run_term_loop_stop':
  "token_type (currentToken p) \<notin> {MUL, DIVIDE} \<Longrightarrow> run_term_loop node p = Return (node, p)"
  by (subst run_term_loop_unfold) simp

lemma run_expr_loop_stop':
  "token_type (currentToken p) \<notin> {MINUS, PLUS} \<Longrightarrow> run_expr_loop node p = Return (node, p)"
  by (subst run_expr_loop_unfold) simp

lemma factor_falls_through:
  "token_type (currentToken p) \<notin> {PLUS, MINUS, INTEGER, LPAREN} \<Longrightarrow>
   factor (Suc n) p = Return (None, p)"
  by (simp add: Let_def)

lemma run_factor_falls_through:
  "token_type (currentToken p) \<notin> {PLUS, MINUS, INTEGER, LPAREN} \<Longrightarrow>
   run_factor p = Return (None, p)"
  by (subst run_factor_unfold) (simp add: Let_def)

section \<open>Decimal digits\<close>

definition digit_char :: "nat \<Rightarrow> char" where
  "digit_char d = char_of (48 + d)"

fun digits :: "nat \<Rightarrow> string" where
  "digits n = (if n < 10 then [digit_char n] else digits (n div 10) @ [digit_char (n mod 10)])"

declare digits.simps [simp del]

lemma digit_char_table:
  "list_all (\<lambda>d. is_digit (digit_char d) \<and> digit_val (digit_char d) = int d) [0..<10]"
  by code_simp

lemma is_digit_digit_char: "d < 10 \<Longrightarrow> is_digit (digit_char d)"
  using digit_char_table by (simp add: list_all_iff)

lemma digit_val_digit_char: "d < 10 \<Longrightarrow> digit_val (digit_char d) = int d"
  using digit_char_table by (simp add: list_all_iff)

lemma digits_not_Nil: "digits n \<noteq> []"
  by (subst digits.simps) simp

lemma digits_are_digits: "\<forall>c\<in>set (digits n). is_digit c"
proof (induction n rule: digits.induct)
  case (1 n)
  then show ?case
    by (subst digits.simps) (auto simp: is_digit_digit_char)
qed

lemma decimal_snoc: "decimal (ds @ [c]) = 10 * decimal ds + digit_val c"
  by (simp add: decimal_def)

lemma decimal_digits: "decimal (digits n) = int n"
proof (induction n rule: digits.induct)
  case (1 n)
  show ?case
  proof (cases "n < 10")
    case True
    then show ?thesis
      by (subst digits.simps) (simp add: decimal_def digit_val_digit_char)
  next
    case False
    with 1 have "decimal (digits (n div 10)) = int (n div 10)" by simp
    with False show ?thesis
      by (subst digits.simps) (simp add: decimal_snoc digit_val_digit_char zdiv_int zmod_int)
  qed
qed

lemma parseFloat_all_digits:
  "ds \<noteq> [] \<Longrightarrow> \<forall>c\<in>set ds. is_digit c \<Longrightarrow> parseFloat ds = round64 (of_int (decimal ds))"
proof -
  assume a: "ds \<noteq> []" "\<forall>c\<in>set ds. is_digit c"
  then have t: "takeWhile is_digit ds = ds" by (simp add: takeWhile_eq_all_conv)
  show ?thesis unfolding parseFloat_def Let_def t using a(1) by simp
qed

lemma parseFloat_digits: "parseFloat (digits n) = round64 (of_nat n)"
  using parseFloat_all_digits [OF digits_not_Nil digits_are_digits, of n]
  by (simp add: decimal_digits)

section \<open>Trees of literals and binary operators, and their rendering\<close>

text \<open>
  An expression tree of non-negative integer literals and the operators \<open>+\<close>,
  \<open>-\<close> and \<open>*\<close>; \<open>render\<close> writes it with every operation in parentheses,
  \<open>to_AST\<close> is the syntax tree the parser builds for it, and \<open>fold_tree\<close> computes
  its value with the operations of the host's numbers. \<open>exact_value\<close> is its value
  in the integers.
\<close>

datatype binop = Plus | Minus | Times

datatype arith = Lit nat | Bin arith binop arith

fun op_char :: "binop \<Rightarrow> char" where
  "op_char Plus = CHR ''+''"
| "op_char Minus = CHR ''-''"
| "op_char Times = CHR ''*''"

fun render :: "arith \<Rightarrow> string" where
  "render (Lit n) = digits n"
| "render (Bin l b r) = ''('' @ render l @ [CHR '' '', op_char b, CHR '' ''] @ render r @ '')''"

fun to_AST :: "arith \<Rightarrow> AST" where
  "to_AST (Lit n) = new_Num (Token INTEGER (NumVal (round64 (of_nat n))))"
| "to_AST (Bin l b r) = BinOp (Some (to_AST l)) (op_token (op_char b)) (Some (to_AST r))"

fun apply_binop :: "binop \<Rightarrow> jsnum \<Rightarrow> jsnum \<Rightarrow> jsnum" where
  "apply_binop Plus x y = js_add x y"
| "apply_binop Minus x y = js_sub x y"
| "apply_binop Times x y = js_mul x y"

fun fold_tree :: "arith \<Rightarrow> jsnum" where
  "fold_tree (Lit n) = round64 (of_nat n)"
| "fold_tree (Bin l b r) = apply_binop b (fold_tree l) (fold_tree r)"

fun exact_value :: "arith \<Rightarrow> int" where
  "exact_value (Lit n) = int n"
| "exact_value (Bin l Plus r) = exact_value l + exact_value r"
| "exact_value (Bin l Minus r) = exact_value l - exact_value r"
| "exact_value (Bin l Times r) = exact_value l * exact_value r"

fun safe :: "arith \<Rightarrow> bool" where
  "safe (Lit n) = (n < 2 ^ 53)"
| "safe (Bin l b r) = (safe l \<and> safe r \<and> \<bar>exact_value (Bin l b r)\<bar> < 2 ^ 53)"

definition is_int_value :: "jsnum \<Rightarrow> int \<Rightarrow> bool" where
  \<comment> \<open>the number is the integer, where \<open>-0\<close> and \<open>+0\<close> both are the integer 0\<close>
  "is_int_value x i = (x = Finite (of_int i) \<or> (i = 0 \<and> x = NegZero))"

lemma visit_to_AST: "visit (Some (to_AST e)) = Number (fold_tree e)"
proof (induction e)
  case (Lit n)
  show ?case by (simp add: new_Num_def)
next
  case (Bin l b r)
  then show ?case by (cases b) (simp_all add: op_token_def)
qed

lemma drop_append_eq: "drop k s = xs @ ys \<Longrightarrow> drop (k + length xs) s = ys"
  by (metis add.commute append_eq_conv_conj drop_drop)

lemma render_factor:
  "drop k s = render e @ r \<Longrightarrow> r = [] \<or> \<not> is_digit (hd r) \<Longrightarrow>
   parser_at s (k + length (render e)) = Return q \<Longrightarrow>
   \<exists>p. parser_at s k = Return p \<and> run_factor p = Return (Some (to_AST e), q)"
proof (induction e arbitrary: k r q)
  case (Lit n)
  have "parser_at s k = Return (pstate s (k + length (digits n))
      (Token INTEGER (NumVal (parseFloat (digits n)))))"
    using Lit.prems(1,2) digits_not_Nil digits_are_digits
    by (intro parser_at_digits [where r = r]) auto
  with Lit.prems(3) show ?case
    by (simp add: run_factor_pstate parseFloat_digits)
next
  case (Bin l b r')
  define c where "c = op_char b"
  define k1 where "k1 = Suc k"
  define k2 where "k2 = k1 + length (render l)"
  define k3 where "k3 = k2 + 2"
  define k4 where "k4 = k3 + 1"
  define k5 where "k5 = k4 + length (render r')"
  define k6 where "k6 = k5 + 1"
  define tl where "tl = to_AST l"
  define tr where "tr = to_AST r'"
  have oc: "is_op_char c" by (cases b) (simp_all add: c_def is_op_char_def)
  have d0: "drop k s = CHR ''('' # (render l @ CHR '' '' # c # CHR '' '' # render r' @ CHR '')'' # r)"
    using Bin.prems(1) by (simp add: c_def)
  have d1: "drop k1 s = render l @ (CHR '' '' # c # CHR '' '' # render r' @ CHR '')'' # r)"
    unfolding k1_def using d0 by (rule drop_Suc_Cons_eq)
  have d2: "drop k2 s = CHR '' '' # c # CHR '' '' # render r' @ CHR '')'' # r"
    unfolding k2_def using d1 by (rule drop_append_eq)
  have d2': "drop (Suc k2) s = c # CHR '' '' # render r' @ CHR '')'' # r"
    using d2 by (rule drop_Suc_Cons_eq)
  have d3: "drop k3 s = CHR '' '' # render r' @ CHR '')'' # r"
    using drop_Suc_Cons_eq [OF d2'] by (simp add: k3_def)
  have d4: "drop k4 s = render r' @ (CHR '')'' # r)"
    using drop_Suc_Cons_eq [OF d3] by (simp add: k4_def)
  have d5: "drop k5 s = CHR '')'' # r"
    unfolding k5_def using d4 by (rule drop_append_eq)
  have k6: "k6 = k + length (render (Bin l b r'))"
    by (simp add: k6_def k5_def k4_def k3_def k2_def k1_def)
  have A: "parser_at s k = Return (pstate s k1 (Token LPAREN (StrVal ''('')))"
    using parser_at_op [OF d0] by (simp add: is_op_char_def op_token_def k1_def)
  have P2: "parser_at s k2 = Return (pstate s k3 (op_token c))"
    using parser_at_space [OF d2] parser_at_op [OF d2' oc] by (simp add: k3_def)
  have P3: "parser_at s k3 = parser_at s k4"
    using parser_at_space [OF d3] by (simp add: k4_def)
  have P5: "parser_at s k5 = Return (pstate s k6 (Token RPAREN (StrVal '')'')))"
    using parser_at_op [OF d5] by (simp add: is_op_char_def op_token_def k6_def)
  have P6: "parser_at s k6 = Return q" using Bin.prems(3) by (simp add: k6)
  from Bin.IH(1) [OF d1 _ P2 [unfolded k2_def]]
  obtain p1 where p1: "parser_at s k1 = Return p1"
    "run_factor p1 = Return (Some tl, pstate s k3 (op_token c))"
    by (auto simp: is_digit_def tl_def)
  from Bin.IH(2) [OF d4 _ P5 [unfolded k5_def]]
  obtain p4 where p4: "parser_at s k4 = Return p4"
    "run_factor p4 = Return (Some tr, pstate s k6 (Token RPAREN (StrVal '')'')))"
    by (auto simp: is_digit_def tr_def)
  let ?B = "Some (BinOp (Some tl) (op_token c) (Some tr))"
  let ?q6 = "pstate s k6 (Token RPAREN (StrVal '')''))"
  have "run_expr p1 = Return (?B, ?q6)"
  proof (cases b)
    case Times
    then have t: "token_type (op_token c) = MUL" by (simp add: c_def op_token_def)
    have "run_term p1 = Return (?B, ?q6)"
      by (simp add: run_term_unfold p1 run_term_loop_pstate t P3 p4)
    then show ?thesis by (simp add: run_expr_unfold run_expr_loop_pstate)
  next
    case Plus
    then have t: "token_type (op_token c) = PLUS" by (simp add: c_def op_token_def)
    have "run_term p1 = Return (Some tl, pstate s k3 (op_token c))"
      by (simp add: run_term_unfold p1 run_term_loop_pstate t)
    moreover have "run_term p4 = Return (Some tr, ?q6)"
      by (simp add: run_term_unfold p4 run_term_loop_pstate)
    ultimately show ?thesis
      by (simp add: run_expr_unfold run_expr_loop_pstate t P3 p4)
  next
    case Minus
    then have t: "token_type (op_token c) = MINUS" by (simp add: c_def op_token_def)
    have "run_term p1 = Return (Some tl, pstate s k3 (op_token c))"
      by (simp add: run_term_unfold p1 run_term_loop_pstate t)
    moreover have "run_term p4 = Return (Some tr, ?q6)"
      by (simp add: run_term_unfold p4 run_term_loop_pstate)
    ultimately show ?thesis
      by (simp add: run_expr_unfold run_expr_loop_pstate t P3 p4)
  qed
  then have "run_factor (pstate s k1 (Token LPAREN (StrVal ''(''))) = Return (?B, q)"
    by (simp add: run_factor_pstate p1 eat_pstate P6)
  with A show ?case by (simp add: tl_def tr_def c_def)
qed

lemma round_trip_tree: "parse_text (render e) = Return (Some (to_AST e))"
proof -
  let ?s = "render e"
  have e: "drop (0 + length ?s) ?s = []" by simp
  have "parser_at ?s (0 + length ?s) = Return (pstate ?s (0 + length ?s) (Token EOF NoVal))"
    using e by (rule parser_at_end)
  from render_factor [of 0 ?s e "[]", OF _ _ this]
  obtain p where p: "parser_at ?s 0 = Return p"
    "run_factor p = Return (Some (to_AST e), pstate ?s (0 + length ?s) (Token EOF NoVal))"
    by auto
  then show ?thesis
    by (simp add: parse_text_at run_expr_unfold run_term_unfold run_term_loop_pstate
        run_expr_loop_pstate)
qed

lemma round_trip_value: "evaluate (render e) = Return (Number (fold_tree e))"
  by (simp add: evaluate_parse_text round_trip_tree visit_to_AST)

lemma round64_int:
  assumes "\<bar>i\<bar> < 2 ^ 53"
  shows "round64 (of_int i) = Finite (of_int i)"
proof (cases "0 \<le> i")
  case True
  with assms show ?thesis by (intro round64_of_int) auto
next
  case False
  then have n: "0 \<le> - i" "- i < 2 ^ 53" "of_int (- i) \<noteq> (0::rat)" using assms by auto
  have "round64 (of_int i) = round64 (- of_int (- i))" by simp
  also have "\<dots> = js_neg (round64 (of_int (- i)))" using n(3) by (rule round64_uminus)
  also have "\<dots> = js_neg (Finite (of_int (- i)))" by (simp only: round64_of_int [OF n(1,2)])
  also have "\<dots> = Finite (of_int i)" using False by simp
  finally show ?thesis .
qed

lemma is_int_value_add:
  "is_int_value x i \<Longrightarrow> is_int_value y j \<Longrightarrow> \<bar>i + j\<bar> < 2 ^ 53 \<Longrightarrow> is_int_value (js_add x y) (i + j)"
  using round64_int [of "i + j"] by (auto simp: is_int_value_def js_add_def)

lemma is_int_value_neg: "is_int_value y j \<Longrightarrow> is_int_value (js_neg y) (- j)"
  by (cases "j = 0") (auto simp: is_int_value_def)

lemma is_int_value_sub:
  "is_int_value x i \<Longrightarrow> is_int_value y j \<Longrightarrow> \<bar>i - j\<bar> < 2 ^ 53 \<Longrightarrow> is_int_value (js_sub x y) (i - j)"
  using is_int_value_add [of x i "js_neg y" "- j"] is_int_value_neg [of y j]
  by (simp add: js_sub_def)

lemma is_int_value_mul:
  "is_int_value x i \<Longrightarrow> is_int_value y j \<Longrightarrow> \<bar>i * j\<bar> < 2 ^ 53 \<Longrightarrow> is_int_value (js_mul x y) (i * j)"
  using round64_int [of "i * j"]
  by (auto simp: is_int_value_def js_mul_def signed_zero_def)

lemma fold_tree_exact: "safe e \<Longrightarrow> is_int_value (fold_tree e) (exact_value e)"
proof (induction e)
  case (Lit n)
  then show ?case using round64_of_nat [of n] by (simp add: is_int_value_def)
next
  case (Bin l b r)
  then show ?case
    by (cases b) (auto intro: is_int_value_add is_int_value_sub is_int_value_mul)
qed

section \<open>Chains of binary operators of one precedence\<close>

text \<open>
  \<open>chain_text\<close> writes the operators and literals that follow the first literal;
  \<open>chain_tree\<close> nests them to the left: every operator takes the tree built so far
  as its left child.
\<close>

definition lit :: "string \<Rightarrow> AST" where
  "lit ds = new_Num (Token INTEGER (NumVal (parseFloat ds)))"

fun chain_text :: "(char \<times> string) list \<Rightarrow> string" where
  "chain_text [] = []"
| "chain_text ((c, ds) # rest) = CHR '' '' # c # CHR '' '' # ds @ chain_text rest"

fun chain_tree :: "AST \<Rightarrow> (char \<times> string) list \<Rightarrow> AST" where
  "chain_tree t [] = t"
| "chain_tree t ((c, ds) # rest) = chain_tree (BinOp (Some t) (op_token c) (Some (lit ds))) rest"

definition literals :: "string list \<Rightarrow> bool" where
  "literals dss = (\<forall>ds\<in>set dss. ds \<noteq> [] \<and> (\<forall>c\<in>set ds. is_digit c))"

lemma chain_text_no_digit: "chain_text rest = [] \<or> \<not> is_digit (hd (chain_text rest))"
  by (cases rest) (auto simp: is_digit_def)

lemma expr_loop_chain:
  "drop k s = chain_text rest \<Longrightarrow> set (map fst rest) \<subseteq> {CHR ''+'', CHR ''-''} \<Longrightarrow>
   literals (map snd rest) \<Longrightarrow>
   \<exists>p q. parser_at s k = Return p \<and> token_type (currentToken p) \<in> {PLUS, MINUS, EOF} \<and>
     run_expr_loop (Some t) p = Return (Some (chain_tree t rest), q) \<and>
     token_type (currentToken q) = EOF"
proof (induction rest arbitrary: k t)
  case Nil
  then have "parser_at s k = Return (pstate s k (Token EOF NoVal))"
    by (simp add: parser_at_end)
  then show ?case by (simp add: run_expr_loop_pstate)
next
  case (Cons item rest)
  obtain c ds where item: "item = (c, ds)" by (cases item)
  from Cons.prems item have c: "c = CHR ''+'' \<or> c = CHR ''-''"
    and ds: "ds \<noteq> []" "\<forall>d\<in>set ds. is_digit d"
    and rest: "set (map fst rest) \<subseteq> {CHR ''+'', CHR ''-''}" "literals (map snd rest)"
    by (auto simp: literals_def)
  from c have oc: "is_op_char c" and tt: "token_type (op_token c) = PLUS \<or> token_type (op_token c) = MINUS"
    by (auto simp: is_op_char_def op_token_def)
  have d0: "drop k s = CHR '' '' # c # CHR '' '' # ds @ chain_text rest"
    using Cons.prems(1) item by simp
  have d1: "drop (Suc k) s = c # CHR '' '' # ds @ chain_text rest"
    using d0 by (rule drop_Suc_Cons_eq)
  define k2 where "k2 = Suc (Suc k)"
  define k3 where "k3 = Suc k2"
  define k4 where "k4 = k3 + length ds"
  have d2: "drop k2 s = CHR '' '' # ds @ chain_text rest"
    unfolding k2_def using d1 by (rule drop_Suc_Cons_eq)
  have d3: "drop k3 s = ds @ chain_text rest"
    unfolding k3_def using d2 by (rule drop_Suc_Cons_eq)
  have d4: "drop k4 s = chain_text rest"
    unfolding k4_def using d3 by (rule drop_append_eq)
  have P0: "parser_at s k = Return (pstate s k2 (op_token c))"
    using parser_at_space [OF d0] parser_at_op [OF d1 oc] by (simp add: k2_def)
  have P2: "parser_at s k2 =
      Return (pstate s k4 (Token INTEGER (NumVal (parseFloat ds))))"
    using parser_at_space [OF d2] parser_at_digits [OF d3 ds chain_text_no_digit]
    by (simp add: k3_def k4_def)
  from Cons.IH [OF d4 rest, of "BinOp (Some t) (op_token c) (Some (lit ds))"]
  obtain p q where p: "parser_at s k4 = Return p"
    "token_type (currentToken p) \<in> {PLUS, MINUS, EOF}"
    "run_expr_loop (Some (BinOp (Some t) (op_token c) (Some (lit ds)))) p =
       Return (Some (chain_tree (BinOp (Some t) (op_token c) (Some (lit ds))) rest), q)"
    "token_type (currentToken q) = EOF"
    by blast
  have "run_factor (pstate s k4 (Token INTEGER (NumVal (parseFloat ds)))) =
      Return (Some (lit ds), p)"
    by (simp add: run_factor_pstate p(1) lit_def)
  then have "run_term (pstate s k4 (Token INTEGER (NumVal (parseFloat ds)))) =
      Return (Some (lit ds), p)"
    using p(2) by (auto simp: run_term_unfold run_term_loop_stop')
  then have "run_expr_loop (Some t) (pstate s k2 (op_token c)) =
      Return (Some (chain_tree t (item # rest)), q)"
    using tt by (auto simp: run_expr_loop_pstate P2 p(3) item)
  with P0 tt p(4) show ?case by auto
qed

lemma term_loop_chain:
  "drop k s = chain_text rest \<Longrightarrow> set (map fst rest) \<subseteq> {CHR ''*'', CHR ''/''} \<Longrightarrow>
   literals (map snd rest) \<Longrightarrow>
   \<exists>p q. parser_at s k = Return p \<and> token_type (currentToken p) \<in> {MUL, DIVIDE, EOF} \<and>
     run_term_loop (Some t) p = Return (Some (chain_tree t rest), q) \<and>
     token_type (currentToken q) = EOF"
proof (induction rest arbitrary: k t)
  case Nil
  then have "parser_at s k = Return (pstate s k (Token EOF NoVal))"
    by (simp add: parser_at_end)
  then show ?case by (simp add: run_term_loop_pstate)
next
  case (Cons item rest)
  obtain c ds where item: "item = (c, ds)" by (cases item)
  from Cons.prems item have c: "c = CHR ''*'' \<or> c = CHR ''/''"
    and ds: "ds \<noteq> []" "\<forall>d\<in>set ds. is_digit d"
    and rest: "set (map fst rest) \<subseteq> {CHR ''*'', CHR ''/''}" "literals (map snd rest)"
    by (auto simp: literals_def)
  from c have oc: "is_op_char c" and tt: "token_type (op_token c) = MUL \<or> token_type (op_token c) = DIVIDE"
    by (auto simp: is_op_char_def op_token_def)
  have d0: "drop k s = CHR '' '' # c # CHR '' '' # ds @ chain_text rest"
    using Cons.prems(1) item by simp
  have d1: "drop (Suc k) s = c # CHR '' '' # ds @ chain_text rest"
    using d0 by (rule drop_Suc_Cons_eq)
  define k2 where "k2 = Suc (Suc k)"
  define k3 where "k3 = Suc k2"
  define k4 where "k4 = k3 + length ds"
  have d2: "drop k2 s = CHR '' '' # ds @ chain_text rest"
    unfolding k2_def using d1 by (rule drop_Suc_Cons_eq)
  have d3: "drop k3 s = ds @ chain_text rest"
    unfolding k3_def using d2 by (rule drop_Suc_Cons_eq)
  have d4: "drop k4 s = chain_text rest"
    unfolding k4_def using d3 by (rule drop_append_eq)
  have P0: "parser_at s k = Return (pstate s k2 (op_token c))"
    using parser_at_space [OF d0] parser_at_op [OF d1 oc] by (simp add: k2_def)
  have P2: "parser_at s k2 =
      Return (pstate s k4 (Token INTEGER (NumVal (parseFloat ds))))"
    using parser_at_space [OF d2] parser_at_digits [OF d3 ds chain_text_no_digit]
    by (simp add: k3_def k4_def)
  from Cons.IH [OF d4 rest, of "BinOp (Some t) (op_token c) (Some (lit ds))"]
  obtain p q where p: "parser_at s k4 = Return p"
    "token_type (currentToken p) \<in> {MUL, DIVIDE, EOF}"
    "run_term_loop (Some (BinOp (Some t) (op_token c) (Some (lit ds)))) p =
       Return (Some (chain_tree (BinOp (Some t) (op_token c) (Some (lit ds))) rest), q)"
    "token_type (currentToken q) = EOF"
    by blast
  have "run_factor (pstate s k4 (Token INTEGER (NumVal (parseFloat ds)))) =
      Return (Some (lit ds), p)"
    by (simp add: run_factor_pstate p(1) lit_def)
  then have "run_term_loop (Some t) (pstate s k2 (op_token c)) =
      Return (Some (chain_tree t (item # rest)), q)"
    using tt by (auto simp: run_term_loop_pstate P2 p(3) item)
  with P0 tt p(4) show ?case by auto
qed

lemma chain_parse:
  assumes "ds0 \<noteq> []" "\<forall>d\<in>set ds0. is_digit d" "literals (map snd rest)"
    and "set (map fst rest) \<subseteq> {CHR ''+'', CHR ''-''} \<or> set (map fst rest) \<subseteq> {CHR ''*'', CHR ''/''}"
  shows "parse_text (ds0 @ chain_text rest) = Return (Some (chain_tree (lit ds0) rest))"
proof -
  let ?s = "ds0 @ chain_text rest"
  let ?p0 = "pstate ?s (0 + length ds0) (Token INTEGER (NumVal (parseFloat ds0)))"
  have d0: "drop 0 ?s = ds0 @ chain_text rest" by simp
  have d1: "drop (length ds0) ?s = chain_text rest" by simp
  have P0: "parser_at ?s 0 = Return ?p0"
    using d0 assms(1,2) chain_text_no_digit by (rule parser_at_digits)
  from assms(4) show ?thesis
  proof
    assume ops: "set (map fst rest) \<subseteq> {CHR ''+'', CHR ''-''}"
    from expr_loop_chain [OF d1 ops assms(3), of "lit ds0"]
    obtain p q where p: "parser_at ?s (length ds0) = Return p"
      "token_type (currentToken p) \<in> {PLUS, MINUS, EOF}"
      "run_expr_loop (Some (lit ds0)) p = Return (Some (chain_tree (lit ds0) rest), q)"
      by blast
    have "run_factor ?p0 = Return (Some (lit ds0), p)"
      by (simp add: run_factor_pstate p(1) lit_def)
    then have "run_term ?p0 = Return (Some (lit ds0), p)"
      using p(2) by (auto simp: run_term_unfold run_term_loop_stop')
    then show ?thesis
      by (simp add: parse_text_at P0 run_expr_unfold p(3))
  next
    assume ops: "set (map fst rest) \<subseteq> {CHR ''*'', CHR ''/''}"
    from term_loop_chain [OF d1 ops assms(3), of "lit ds0"]
    obtain p q where p: "parser_at ?s (length ds0) = Return p"
      "run_term_loop (Some (lit ds0)) p = Return (Some (chain_tree (lit ds0) rest), q)"
      "token_type (currentToken q) = EOF"
      by blast
    have "run_factor ?p0 = Return (Some (lit ds0), p)"
      by (simp add: run_factor_pstate p(1) lit_def)
    then have "run_term ?p0 = Return (Some (chain_tree (lit ds0) rest), q)"
      by (simp add: run_term_unfold p(2))
    then show ?thesis
      using p(3) by (simp add: parse_text_at P0 run_expr_unfold run_expr_loop_stop')
  qed
qed

lemma expr_loop_step:
  assumes "token_type (currentToken p) = PLUS \<or> token_type (currentToken p) = MINUS"
  shows "run_expr_loop node p =
    bind (eat (token_type (currentToken p)) p) (\<lambda>p2. bind (run_term p2) (\<lambda>(right, p3).
      run_expr_loop (Some (BinOp node (currentToken p) right)) p3))"
  using assms by (subst run_expr_loop_unfold) (auto simp: Let_def)

lemma term_loop_step:
  assumes "token_type (currentToken p) = MUL \<or> token_type (currentToken p) = DIVIDE"
  shows "run_term_loop node p =
    bind (eat (token_type (currentToken p)) p) (\<lambda>p2. bind (run_factor p2) (\<lambda>(right, p3).
      run_term_loop (Some (BinOp node (currentToken p) right)) p3))"
  using assms by (subst run_term_loop_unfold) (auto simp: Let_def)

section \<open>Texts read as factors, terms and expressions\<close>

text \<open>
  What it is for a text to be read as a factor, as a term or as an expression with a
  given tree, wherever the text stands: \<open>k\<close> is where it starts in \<open>s\<close>, \<open>tail\<close> is what
  follows it and \<open>q\<close> is the parser after the pull of the token that follows it. A term
  is read by \<open>factor\<close> and the loop of \<open>term\<close>, which goes on from \<open>q\<close> with the tree
  of the term; an expression by \<open>term\<close> and the loop of \<open>expr\<close>.
\<close>

definition parses_factor :: "string \<Rightarrow> AST \<Rightarrow> bool" where
  "parses_factor txt t =
     (\<forall>k s tail q. drop k s = txt @ tail \<longrightarrow> (tail = [] \<or> \<not> is_digit (hd tail)) \<longrightarrow>
        parser_at s (k + length txt) = Return q \<longrightarrow>
        (\<exists>p. parser_at s k = Return p \<and> run_factor p = Return (Some t, q)))"

definition parses_term :: "string \<Rightarrow> AST \<Rightarrow> bool" where
  "parses_term txt t =
     (\<forall>k s tail q. drop k s = txt @ tail \<longrightarrow> (tail = [] \<or> \<not> is_digit (hd tail)) \<longrightarrow>
        parser_at s (k + length txt) = Return q \<longrightarrow>
        (\<exists>p first p1. parser_at s k = Return p \<and> run_factor p = Return (first, p1) \<and>
           run_term_loop first p1 = run_term_loop (Some t) q))"

definition parses_expr :: "string \<Rightarrow> AST \<Rightarrow> bool" where
  "parses_expr txt t =
     (\<forall>k s tail q. drop k s = txt @ tail \<longrightarrow> (tail = [] \<or> \<not> is_digit (hd tail)) \<longrightarrow>
        parser_at s (k + length txt) = Return q \<longrightarrow>
        token_type (currentToken q) \<notin> {MUL, DIVIDE} \<longrightarrow>
        (\<exists>p first p1. parser_at s k = Return p \<and> run_term p = Return (first, p1) \<and>
           run_expr_loop first p1 = run_expr_loop (Some t) q))"

lemma parses_factorD:
  assumes "parses_factor txt t" "drop k s = txt @ tail" "tail = [] \<or> \<not> is_digit (hd tail)"
    "parser_at s (k + length txt) = Return q"
  obtains p where "parser_at s k = Return p" "run_factor p = Return (Some t, q)"
  using assms unfolding parses_factor_def by blast

lemma parses_termD:
  assumes "parses_term txt t" "drop k s = txt @ tail" "tail = [] \<or> \<not> is_digit (hd tail)"
    "parser_at s (k + length txt) = Return q"
  obtains p first p1 where "parser_at s k = Return p" "run_factor p = Return (first, p1)"
    "run_term_loop first p1 = run_term_loop (Some t) q"
  using assms unfolding parses_term_def by blast

lemma parses_exprD:
  assumes "parses_expr txt t" "drop k s = txt @ tail" "tail = [] \<or> \<not> is_digit (hd tail)"
    "parser_at s (k + length txt) = Return q" "token_type (currentToken q) \<notin> {MUL, DIVIDE}"
  obtains p first p1 where "parser_at s k = Return p" "run_term p = Return (first, p1)"
    "run_expr_loop first p1 = run_expr_loop (Some t) q"
  using assms unfolding parses_expr_def by blast

lemma parses_term_run:
  assumes "parses_term txt t" "drop k s = txt @ tail" "tail = [] \<or> \<not> is_digit (hd tail)"
    "parser_at s (k + length txt) = Return q" "token_type (currentToken q) \<notin> {MUL, DIVIDE}"
  obtains p where "parser_at s k = Return p" "run_term p = Return (Some t, q)"
proof -
  from parses_termD [OF assms(1-4)] obtain p first p1 where
    p: "parser_at s k = Return p" "run_factor p = Return (first, p1)"
      "run_term_loop first p1 = run_term_loop (Some t) q"
    by blast
  from assms(5) have "run_term_loop (Some t) q = Return (Some t, q)"
    by (rule run_term_loop_stop')
  with p have "run_term p = Return (Some t, q)" by (simp add: run_term_unfold)
  with p(1) that show ?thesis by blast
qed

lemma parses_expr_run:
  assumes "parses_expr txt t" "drop k s = txt @ tail" "tail = [] \<or> \<not> is_digit (hd tail)"
    "parser_at s (k + length txt) = Return q"
    "token_type (currentToken q) \<notin> {MUL, DIVIDE, MINUS, PLUS}"
  obtains p where "parser_at s k = Return p" "run_expr p = Return (Some t, q)"
proof -
  from assms(5) have m: "token_type (currentToken q) \<notin> {MUL, DIVIDE}"
    and a: "token_type (currentToken q) \<notin> {MINUS, PLUS}" by auto
  from parses_exprD [OF assms(1-4) m] obtain p first p1 where
    p: "parser_at s k = Return p" "run_term p = Return (first, p1)"
      "run_expr_loop first p1 = run_expr_loop (Some t) q"
    by blast
  from a have "run_expr_loop (Some t) q = Return (Some t, q)"
    by (rule run_expr_loop_stop')
  with p have "run_expr p = Return (Some t, q)" by (simp add: run_expr_unfold)
  with p(1) that show ?thesis by blast
qed

lemma parses_literal:
  assumes "ds \<noteq> []" "\<forall>d\<in>set ds. is_digit d"
  shows "parses_factor ds (lit ds)"
  unfolding parses_factor_def
proof (intro allI impI)
  fix k s tail q
  assume d: "drop k s = ds @ tail" and t: "tail = [] \<or> \<not> is_digit (hd tail)"
    and q: "parser_at s (k + length ds) = Return q"
  from parser_at_digits [OF d assms t] q
  show "\<exists>p. parser_at s k = Return p \<and> run_factor p = Return (Some (lit ds), q)"
    by (simp add: run_factor_pstate lit_def)
qed

lemma parses_factor_term: "parses_factor txt t \<Longrightarrow> parses_term txt t"
  unfolding parses_term_def
proof (intro allI impI)
  fix k s tail q
  assume f: "parses_factor txt t" and d: "drop k s = txt @ tail"
    and t: "tail = [] \<or> \<not> is_digit (hd tail)" and q: "parser_at s (k + length txt) = Return q"
  from parses_factorD [OF f d t q] obtain p where
    "parser_at s k = Return p" "run_factor p = Return (Some t, q)" by blast
  then show "\<exists>p first p1. parser_at s k = Return p \<and> run_factor p = Return (first, p1) \<and>
      run_term_loop first p1 = run_term_loop (Some t) q"
    by blast
qed

lemma parses_term_expr: "parses_term txt t \<Longrightarrow> parses_expr txt t"
  unfolding parses_expr_def
proof (intro allI impI)
  fix k s tail q
  assume f: "parses_term txt t" and d: "drop k s = txt @ tail"
    and t: "tail = [] \<or> \<not> is_digit (hd tail)" and q: "parser_at s (k + length txt) = Return q"
    and m: "token_type (currentToken q) \<notin> {MUL, DIVIDE}"
  from parses_term_run [OF f d t q m] obtain p where
    "parser_at s k = Return p" "run_term p = Return (Some t, q)" by blast
  then show "\<exists>p first p1. parser_at s k = Return p \<and> run_term p = Return (first, p1) \<and>
      run_expr_loop first p1 = run_expr_loop (Some t) q"
    by blast
qed

lemma parses_paren:
  assumes "parses_expr txt t"
  shows "parses_factor (CHR ''('' # txt @ '')'') t"
  unfolding parses_factor_def
proof (intro allI impI)
  fix k s tail q
  assume d: "drop k s = (CHR ''('' # txt @ '')'') @ tail"
    and q: "parser_at s (k + length (CHR ''('' # txt @ '')'')) = Return q"
  define k1 where "k1 = Suc k"
  define k2 where "k2 = k1 + length txt"
  have d0: "drop k s = CHR ''('' # (txt @ CHR '')'' # tail)" using d by simp
  have d1: "drop k1 s = txt @ (CHR '')'' # tail)"
    unfolding k1_def using d0 by (rule drop_Suc_Cons_eq)
  have d2: "drop k2 s = CHR '')'' # tail"
    unfolding k2_def using d1 by (rule drop_append_eq)
  have P0: "parser_at s k = Return (pstate s k1 (Token LPAREN (StrVal ''('')))"
    using parser_at_op [OF d0] by (simp add: is_op_char_def op_token_def k1_def)
  have P2: "parser_at s k2 = Return (pstate s (Suc k2) (Token RPAREN (StrVal '')'')))"
    using parser_at_op [OF d2] by (simp add: is_op_char_def op_token_def)
  have P3: "parser_at s (Suc k2) = Return q"
    using q by (simp add: k2_def k1_def)
  from parses_expr_run [OF assms d1 _ P2 [unfolded k2_def]]
  obtain p1 where p1: "parser_at s k1 = Return p1"
    "run_expr p1 = Return (Some t, pstate s (Suc k2) (Token RPAREN (StrVal '')'')))"
    by (auto simp: is_digit_def k2_def)
  have "run_factor (pstate s k1 (Token LPAREN (StrVal ''(''))) = Return (Some t, q)"
    by (simp add: run_factor_pstate p1 eat_pstate P3)
  with P0 show "\<exists>p. parser_at s k = Return p \<and> run_factor p = Return (Some t, q)" by simp
qed

lemma parses_product:
  assumes l: "parses_term txl l" and r: "parses_factor txr r"
    and c: "c = CHR ''*'' \<or> c = CHR ''/''"
  shows "parses_term (txl @ [CHR '' '', c, CHR '' ''] @ txr) (BinOp (Some l) (op_token c) (Some r))"
  unfolding parses_term_def
proof (intro allI impI)
  fix k s tail q
  assume d: "drop k s = (txl @ [CHR '' '', c, CHR '' ''] @ txr) @ tail"
    and t: "tail = [] \<or> \<not> is_digit (hd tail)"
    and q: "parser_at s (k + length (txl @ [CHR '' '', c, CHR '' ''] @ txr)) = Return q"
  define k1 where "k1 = k + length txl"
  define k2 where "k2 = Suc (Suc k1)"
  define k3 where "k3 = Suc k2"
  from c have oc: "is_op_char c"
    and tt: "token_type (op_token c) = MUL \<or> token_type (op_token c) = DIVIDE"
    by (auto simp: is_op_char_def op_token_def)
  have d0: "drop k s = txl @ (CHR '' '' # c # CHR '' '' # txr @ tail)" using d by simp
  have d1: "drop k1 s = CHR '' '' # c # CHR '' '' # txr @ tail"
    unfolding k1_def using d0 by (rule drop_append_eq)
  have d1': "drop (Suc k1) s = c # CHR '' '' # txr @ tail"
    using d1 by (rule drop_Suc_Cons_eq)
  have d2: "drop k2 s = CHR '' '' # txr @ tail"
    unfolding k2_def using d1' by (rule drop_Suc_Cons_eq)
  have d3: "drop k3 s = txr @ tail"
    unfolding k3_def using d2 by (rule drop_Suc_Cons_eq)
  have P1: "parser_at s k1 = Return (pstate s k2 (op_token c))"
    using parser_at_space [OF d1] parser_at_op [OF d1' oc] by (simp add: k2_def)
  have P2: "parser_at s k2 = parser_at s k3"
    using parser_at_space [OF d2] by (simp add: k3_def)
  have P3: "parser_at s (k3 + length txr) = Return q"
    using q by (simp add: k3_def k2_def k1_def add.assoc)
  from parses_termD [OF l d0 _ P1 [unfolded k1_def]]
  obtain p first p1 where p: "parser_at s k = Return p" "run_factor p = Return (first, p1)"
    "run_term_loop first p1 = run_term_loop (Some l) (pstate s k2 (op_token c))"
    by (auto simp: is_digit_def)
  from parses_factorD [OF r d3 t P3]
  obtain p3 where p3: "parser_at s k3 = Return p3" "run_factor p3 = Return (Some r, q)"
    by blast
  have "run_term_loop (Some l) (pstate s k2 (op_token c)) =
      run_term_loop (Some (BinOp (Some l) (op_token c) (Some r))) q"
    using tt by (auto simp: run_term_loop_pstate P2 p3)
  with p show "\<exists>p first p1. parser_at s k = Return p \<and> run_factor p = Return (first, p1) \<and>
      run_term_loop first p1 = run_term_loop (Some (BinOp (Some l) (op_token c) (Some r))) q"
    by auto
qed

lemma parses_sum:
  assumes l: "parses_expr txl l" and r: "parses_term txr r"
    and c: "c = CHR ''+'' \<or> c = CHR ''-''"
  shows "parses_expr (txl @ [CHR '' '', c, CHR '' ''] @ txr) (BinOp (Some l) (op_token c) (Some r))"
  unfolding parses_expr_def
proof (intro allI impI)
  fix k s tail q
  assume d: "drop k s = (txl @ [CHR '' '', c, CHR '' ''] @ txr) @ tail"
    and t: "tail = [] \<or> \<not> is_digit (hd tail)"
    and q: "parser_at s (k + length (txl @ [CHR '' '', c, CHR '' ''] @ txr)) = Return q"
    and m: "token_type (currentToken q) \<notin> {MUL, DIVIDE}"
  define k1 where "k1 = k + length txl"
  define k2 where "k2 = Suc (Suc k1)"
  define k3 where "k3 = Suc k2"
  from c have oc: "is_op_char c"
    and tt: "token_type (op_token c) = PLUS \<or> token_type (op_token c) = MINUS"
    by (auto simp: is_op_char_def op_token_def)
  have d0: "drop k s = txl @ (CHR '' '' # c # CHR '' '' # txr @ tail)" using d by simp
  have d1: "drop k1 s = CHR '' '' # c # CHR '' '' # txr @ tail"
    unfolding k1_def using d0 by (rule drop_append_eq)
  have d1': "drop (Suc k1) s = c # CHR '' '' # txr @ tail"
    using d1 by (rule drop_Suc_Cons_eq)
  have d2: "drop k2 s = CHR '' '' # txr @ tail"
    unfolding k2_def using d1' by (rule drop_Suc_Cons_eq)
  have d3: "drop k3 s = txr @ tail"
    unfolding k3_def using d2 by (rule drop_Suc_Cons_eq)
  have P1: "parser_at s k1 = Return (pstate s k2 (op_token c))"
    using parser_at_space [OF d1] parser_at_op [OF d1' oc] by (simp add: k2_def)
  have P2: "parser_at s k2 = parser_at s k3"
    using parser_at_space [OF d2] by (simp add: k3_def)
  have P3: "parser_at s (k3 + length txr) = Return q"
    using q by (simp add: k3_def k2_def k1_def add.assoc)
  have m1: "token_type (currentToken (pstate s k2 (op_token c))) \<notin> {MUL, DIVIDE}"
    using tt by auto
  from parses_exprD [OF l d0 _ P1 [unfolded k1_def] m1]
  obtain p first p1 where p: "parser_at s k = Return p" "run_term p = Return (first, p1)"
    "run_expr_loop first p1 = run_expr_loop (Some l) (pstate s k2 (op_token c))"
    by (auto simp: is_digit_def)
  from parses_term_run [OF r d3 t P3 m]
  obtain p3 where p3: "parser_at s k3 = Return p3" "run_term p3 = Return (Some r, q)"
    by blast
  have "run_expr_loop (Some l) (pstate s k2 (op_token c)) =
      run_expr_loop (Some (BinOp (Some l) (op_token c) (Some r))) q"
    using tt by (auto simp: run_expr_loop_pstate P2 p3)
  with p show "\<exists>p first p1. parser_at s k = Return p \<and> run_term p = Return (first, p1) \<and>
      run_expr_loop first p1 = run_expr_loop (Some (BinOp (Some l) (op_token c) (Some r))) q"
    by auto
qed

lemma parses_expr_text:
  assumes "parses_expr txt t"
  shows "parse_text txt = Return (Some t)"
proof -
  have d: "drop 0 txt = txt @ []" by simp
  have e: "parser_at txt (0 + length txt) = Return (pstate txt (0 + length txt) (Token EOF NoVal))"
    by (rule parser_at_end) simp
  from parses_expr_run [OF assms d _ e]
  obtain p where "parser_at txt 0 = Return p"
    "run_expr p = Return (Some t, pstate txt (0 + length txt) (Token EOF NoVal))"
    by auto
  then show ?thesis by (simp add: parse_text_at)
qed

text \<open>
  \<open>pretty\<close> writes a tree with the parentheses that the precedence of the operators
  and their grouping to the left make necessary, and no others: \<open>pretty 0\<close> writes an
  expression, \<open>pretty 1\<close> a term and \<open>pretty 2\<close> a factor. An operand that is an
  operation of a lower precedence is put in parentheses, and so is a right operand of
  the same precedence.
\<close>

fun prec :: "binop \<Rightarrow> nat" where
  "prec Plus = 0"
| "prec Minus = 0"
| "prec Times = 1"

fun pretty :: "nat \<Rightarrow> arith \<Rightarrow> string" where
  "pretty lv (Lit n) = digits n"
| "pretty lv (Bin l b r) =
     (if lv \<le> prec b
      then pretty (prec b) l @ [CHR '' '', op_char b, CHR '' ''] @ pretty (Suc (prec b)) r
      else ''('' @ pretty (prec b) l @ [CHR '' '', op_char b, CHR '' ''] @ pretty (Suc (prec b)) r @ '')'')"

lemma pretty_parses:
  "parses_factor (pretty 2 e) (to_AST e) \<and> parses_term (pretty 1 e) (to_AST e) \<and>
   parses_expr (pretty 0 e) (to_AST e)"
proof (induction e)
  case (Lit n)
  have "parses_factor (digits n) (lit (digits n))"
    using digits_not_Nil digits_are_digits by (rule parses_literal)
  then have f: "parses_factor (digits n) (to_AST (Lit n))"
    by (simp add: lit_def parseFloat_digits)
  from f parses_factor_term [OF f] parses_term_expr [OF parses_factor_term [OF f]]
  show ?case by simp
next
  case (Bin l b r)
  show ?case
  proof (cases b)
    case Times
    from Bin.IH have "parses_term (pretty 1 l) (to_AST l)" "parses_factor (pretty 2 r) (to_AST r)"
      by simp_all
    from parses_product [OF this, of "CHR ''*''"]
    have t: "parses_term (pretty 1 (Bin l b r)) (to_AST (Bin l b r))"
      using Times by (simp add: numeral_2_eq_2)
    then have e: "parses_expr (pretty 0 (Bin l b r)) (to_AST (Bin l b r))"
      using parses_term_expr [OF t] Times by simp
    from parses_paren [OF e] have "parses_factor (pretty 2 (Bin l b r)) (to_AST (Bin l b r))"
      using Times by simp
    with t e show ?thesis by simp
  next
    case Plus
    from Bin.IH have "parses_expr (pretty 0 l) (to_AST l)" "parses_term (pretty 1 r) (to_AST r)"
      by simp_all
    from parses_sum [OF this, of "CHR ''+''"]
    have e: "parses_expr (pretty 0 (Bin l b r)) (to_AST (Bin l b r))"
      using Plus by simp
    from parses_paren [OF e] have f: "parses_factor (pretty 2 (Bin l b r)) (to_AST (Bin l b r))"
      using Plus by simp
    then have "parses_factor (pretty 1 (Bin l b r)) (to_AST (Bin l b r))"
      using Plus by simp
    from parses_factor_term [OF this] e f show ?thesis by simp
  next
    case Minus
    from Bin.IH have "parses_expr (pretty 0 l) (to_AST l)" "parses_term (pretty 1 r) (to_AST r)"
      by simp_all
    from parses_sum [OF this, of "CHR ''-''"]
    have e: "parses_expr (pretty 0 (Bin l b r)) (to_AST (Bin l b r))"
      using Minus by simp
    from parses_paren [OF e] have f: "parses_factor (pretty 2 (Bin l b r)) (to_AST (Bin l b r))"
      using Minus by simp
    then have "parses_factor (pretty 1 (Bin l b r)) (to_AST (Bin l b r))"
      using Minus by simp
    from parses_factor_term [OF this] e f show ?thesis by simp
  qed
qed

text \<open>
  Precedence: the text of a tree, written with the necessary parentheses only, is
  parsed into that tree.
\<close>

lemma pretty_tree: "parse_text (pretty 0 e) = Return (Some (to_AST e))"
  using pretty_parses [of e] by (simp add: parses_expr_text)

lemma pretty_value: "evaluate (pretty 0 e) = Return (Number (fold_tree e))"
  by (simp add: evaluate_parse_text pretty_tree visit_to_AST)

lemma pretty_examples:
  "pretty 0 (Bin (Lit a) Plus (Bin (Lit b) Times (Lit c))) =
     digits a @ '' + '' @ digits b @ '' * '' @ digits c \<and>
   pretty 0 (Bin (Bin (Lit a) Times (Lit b)) Plus (Lit c)) =
     digits a @ '' * '' @ digits b @ '' + '' @ digits c \<and>
   pretty 0 (Bin (Bin (Lit a) Plus (Lit b)) Times (Lit c)) =
     ''('' @ digits a @ '' + '' @ digits b @ '') * '' @ digits c \<and>
   pretty 0 (Bin (Lit a) Times (Bin (Lit b) Plus (Lit c))) =
     digits a @ '' * ('' @ digits b @ '' + '' @ digits c @ '')'' \<and>
   pretty 0 (Bin (Lit a) Minus (Bin (Lit b) Minus (Lit c))) =
     digits a @ '' - ('' @ digits b @ '' - '' @ digits c @ '')''"
  by simp

section \<open>What a run reads of its text\<close>




lemma parser_at_spaces:
  "drop k s = replicate n CHR '' '' @ r \<Longrightarrow> parser_at s k = parser_at s (k + n)"
proof (induction n arbitrary: k)
  case 0
  show ?case by simp
next
  case (Suc n)
  then have d: "drop k s = CHR '' '' # (replicate n CHR '' '' @ r)" by simp
  from Suc.IH [OF drop_Suc_Cons_eq [OF d]] parser_at_space [OF d] show ?case by simp
qed

definition legal_between :: "string \<Rightarrow> nat \<Rightarrow> nat \<Rightarrow> bool" where
  "legal_between s a b = (\<forall>i. a \<le> i \<and> i < b \<longrightarrow> legal_char (s ! i))"

lemma legal_between_refl [simp]: "legal_between s a a"
  by (auto simp: legal_between_def)


















definition parse_run :: "string \<Rightarrow> (AST option \<times> Parser) outcome" where
  "parse_run s = bind (parser_at s 0) run_expr"















section \<open>What follows a text\<close>

text \<open>
  A tree is complete when no operand is missing in it.
\<close>

fun complete :: "AST \<Rightarrow> bool" where
  "complete (Num token v) = True"
| "complete (UnaryOp op e) = (case e of None \<Rightarrow> False | Some t \<Rightarrow> complete t)"
| "complete (BinOp l op r) =
     ((case l of None \<Rightarrow> False | Some t \<Rightarrow> complete t) \<and>
      (case r of None \<Rightarrow> False | Some t \<Rightarrow> complete t))"

definition complete_opt :: "AST option \<Rightarrow> bool" where
  "complete_opt x = (case x of None \<Rightarrow> False | Some t \<Rightarrow> complete t)"

lemma complete_opt_simps [simp]:
  "complete_opt None = False"
  "complete_opt (Some (Num token v)) = True"
  "complete_opt (Some (UnaryOp op e)) = complete_opt e"
  "complete_opt (Some (BinOp l op r)) = (complete_opt l \<and> complete_opt r)"
  by (simp_all add: complete_opt_def)

text \<open>
  What is ignored after a text: anything that starts, after spaces, with a
  parenthesis, or with a literal that is apart from the text: there is a space
  between them, or the text does not end in a digit.
\<close>

definition apart :: "string \<Rightarrow> string \<Rightarrow> bool" where
  "apart s tail = (tail = [] \<or> \<not> is_digit (hd tail) \<or> (s \<noteq> [] \<and> \<not> is_digit (last s)))"

definition trailing :: "string \<Rightarrow> string \<Rightarrow> bool" where
  "trailing s tail =
     (case dropWhile (\<lambda>c. c = CHR '' '') tail of
        [] \<Rightarrow> False
      | c # r \<Rightarrow> c = CHR ''('' \<or> c = CHR '')'' \<or> (is_digit c \<and> apart s tail))"

lemma bind_eq_Return: "bind m f = Return y \<longleftrightarrow> (\<exists>x. m = Return x \<and> f x = Return y)"
  by (cases m) auto

lemma loops_complete:
  "(\<forall>node p y q. term_loop n node p = Return (y, q) \<longrightarrow> complete_opt y \<longrightarrow> complete_opt node) \<and>
   (\<forall>node p y q. expr_loop n node p = Return (y, q) \<longrightarrow> complete_opt y \<longrightarrow> complete_opt node)"
proof (induction n)
  case 0
  show ?case by simp
next
  case (Suc n)
  then have TL: "\<And>node p y q. term_loop n node p = Return (y, q) \<Longrightarrow> complete_opt y \<Longrightarrow> complete_opt node"
    and EL: "\<And>node p y q. expr_loop n node p = Return (y, q) \<Longrightarrow> complete_opt y \<Longrightarrow> complete_opt node"
    by blast+
  have 1: "complete_opt node" if "term_loop (Suc n) node p = Return (y, q)" "complete_opt y" for node p y q
  proof (cases "token_type (currentToken p) \<in> set [MUL, DIVIDE]")
    case False
    with that show ?thesis by simp
  next
    case True
    with that(1) obtain right p3 where
      "term_loop n (Some (BinOp node (currentToken p) right)) p3 = Return (y, q)"
      by (auto simp: Let_def bind_eq_Return split: if_splits)
    from TL [OF this that(2)] show ?thesis by simp
  qed
  have 2: "complete_opt node" if "expr_loop (Suc n) node p = Return (y, q)" "complete_opt y" for node p y q
  proof (cases "token_type (currentToken p) \<in> set [MINUS, PLUS]")
    case False
    with that show ?thesis by simp
  next
    case True
    with that(1) obtain right p3 where
      "expr_loop n (Some (BinOp node (currentToken p) right)) p3 = Return (y, q)"
      by (auto simp: Let_def bind_eq_Return split: if_splits)
    from EL [OF this that(2)] show ?thesis by simp
  qed
  from 1 2 show ?case by blast
qed

lemma term_loop_complete:
  "term_loop n node p = Return (y, q) \<Longrightarrow> complete_opt y \<Longrightarrow> complete_opt node"
  using loops_complete [of n] by blast

lemma expr_loop_complete:
  "expr_loop n node p = Return (y, q) \<Longrightarrow> complete_opt y \<Longrightarrow> complete_opt node"
  using loops_complete [of n] by blast

text \<open>
  A text \<open>s\<close> and a longer text \<open>s'\<close>. \<open>follows c s s' p p'\<close> relates a state \<open>p\<close> of the
  parser over \<open>s\<close> to a state \<open>p'\<close> of the parser over \<open>s'\<close>: they are at the same
  position with the same lookahead, or \<open>p\<close> has seen the end of \<open>s\<close> and \<open>p'\<close> a token
  that ends an expression: a closing parenthesis, or, when \<open>c\<close> holds, the start of an
  operand. \<open>sim c R F F'\<close>: when \<open>F\<close> returns a tree (a complete one, when \<open>c\<close> holds),
  \<open>F'\<close> returns the same tree, in a related state.
\<close>

definition follows :: "bool \<Rightarrow> string \<Rightarrow> string \<Rightarrow> Parser \<Rightarrow> Parser \<Rightarrow> bool" where
  "follows c s s' p p' =
     ((\<exists>k tok. k \<le> length s \<and> p = pstate s k tok \<and> p' = pstate s' k tok) \<or>
      (token_type (currentToken p) = EOF \<and>
       (token_type (currentToken p') = RPAREN \<or>
        c \<and> (token_type (currentToken p') = INTEGER \<or> token_type (currentToken p') = LPAREN))))"

definition sim ::
  "bool \<Rightarrow> (Parser \<Rightarrow> Parser \<Rightarrow> bool) \<Rightarrow>
   (AST option \<times> Parser) outcome \<Rightarrow> (AST option \<times> Parser) outcome \<Rightarrow> bool" where
  "sim c R F F' =
     (\<forall>x q. F = Return (x, q) \<and> (c \<longrightarrow> complete_opt x) \<longrightarrow> (\<exists>q'. F' = Return (x, q') \<and> R q q'))"

lemma follows_token:
  "follows c s s' p p' \<Longrightarrow>
   currentToken p' = currentToken p \<or>
   (token_type (currentToken p) = EOF \<and>
    (token_type (currentToken p') = RPAREN \<or>
     c \<and> (token_type (currentToken p') = INTEGER \<or> token_type (currentToken p') = LPAREN)))"
  by (auto simp: follows_def)

lemma follows_same: "k \<le> length s \<Longrightarrow> follows c s s' (pstate s k tok) (pstate s' k tok)"
  by (auto simp: follows_def)

lemma parser_at_trailing:
  assumes T1: "apart s tail"
    and T2: "parser_at (s @ tail) (length s) = Return q0"
    and T3: "token_type (currentToken q0) = RPAREN \<or>
      c \<and> (token_type (currentToken q0) = INTEGER \<or> token_type (currentToken q0) = LPAREN)"
    and "parser_at s k = Return q" "k \<le> length s"
  shows "\<exists>q'. parser_at (s @ tail) k = Return q' \<and> follows c s (s @ tail) q q'"
  using assms(4,5)
proof (induction "length s - k" arbitrary: k)
  case 0
  then have d: "drop k s = []" and k: "k = length s" by simp_all
  from parser_at_end [OF d] "0.prems" have q: "q = pstate s k (Token EOF NoVal)" by simp
  with T2 T3 k show ?case by (simp add: follows_def)
next
  case (Suc m)
  then have kl: "k < length s" by simp
  then obtain ch rest where d: "drop k s = ch # rest" by (cases "drop k s") auto
  from kl d have d': "drop k (s @ tail) = ch # (rest @ tail)" by simp
  show ?case
  proof (cases "ch = CHR '' ''")
    case True
    have e: "parser_at s (Suc k) = Return q"
      using parser_at_space [of k s rest] d True Suc.prems by simp
    from Suc.hyps(2) have "m = length s - Suc k" by simp
    from Suc.hyps(1) [OF this e] kl obtain q' where
      "parser_at (s @ tail) (Suc k) = Return q'" "follows c s (s @ tail) q q'"
      by auto
    moreover have "parser_at (s @ tail) k = parser_at (s @ tail) (Suc k)"
      using parser_at_space [of k "s @ tail" "rest @ tail"] d' True by simp
    ultimately show ?thesis by auto
  next
    case False
    note nsp = this
    show ?thesis
    proof (cases "is_op_char ch")
      case True
      from parser_at_op [OF d True] Suc.prems have q: "q = pstate s (Suc k) (op_token ch)" by simp
      from parser_at_op [OF d' True] q kl show ?thesis
        by (simp add: follows_same)
    next
      case False
      show ?thesis
      proof (cases "is_digit ch")
        case False
        with nsp \<open>\<not> is_op_char ch\<close> have "\<not> legal_char ch" by (simp add: legal_char_def)
        from parser_at_bad [OF d this] Suc.prems show ?thesis by simp
      next
        case True
        define ds where "ds = takeWhile is_digit (ch # rest)"
        define r' where "r' = dropWhile is_digit (ch # rest)"
        have dd: "drop k s = ds @ r'" using d by (simp add: ds_def r'_def)
        have ne: "ds \<noteq> []" using True by (simp add: ds_def)
        have al: "\<forall>c\<in>set ds. is_digit c" unfolding ds_def by (auto dest: set_takeWhileD)
        have hd: "r' = [] \<or> \<not> is_digit (hd r')"
          unfolding r'_def using hd_dropWhile [of is_digit "ch # rest"] by blast
        let ?tok = "Token INTEGER (NumVal (parseFloat ds))"
        from parser_at_digits [OF dd ne al hd] Suc.prems
        have q: "q = pstate s (k + length ds) ?tok" by simp
        have le: "k + length ds \<le> length s"
        proof -
          have "length (drop k s) = length ds + length r'" using dd by simp
          then show ?thesis using kl by simp
        qed
        have dd': "drop k (s @ tail) = ds @ (r' @ tail)"
          using dd kl by simp
        have hd': "r' @ tail = [] \<or> \<not> is_digit (hd (r' @ tail))"
        proof (cases r')
          case Nil
          with dd kl have "s \<noteq> []" "last s = last ds"
            using ne by (auto simp: last_drop [symmetric])
          with al ne have "is_digit (last s)" by simp
          with T1 Nil show ?thesis by (auto simp: apart_def)
        next
          case Cons
          with hd show ?thesis by simp
        qed
        from parser_at_digits [OF dd' ne al hd'] q le show ?thesis
          by (simp add: follows_same)
      qed
    qed
  qed
qed

lemma sim_Return: "R q q' \<Longrightarrow> sim c R (Return (x, q)) (Return (x, q'))"
  by (simp add: sim_def)

lemma sim_bind:
  assumes "sim c R F F'"
    and "\<And>x q q'. R q q' \<Longrightarrow> sim c R (G (x, q)) (G (x, q'))"
    and "\<And>x q y q2. G (x, q) = Return (y, q2) \<Longrightarrow> complete_opt y \<Longrightarrow> complete_opt x"
  shows "sim c R (bind F G) (bind F' G)"
  unfolding sim_def
proof (intro allI impI)
  fix y q2 assume b: "bind F G = Return (y, q2) \<and> (c \<longrightarrow> complete_opt y)"
  then obtain x q where F: "F = Return (x, q)" and G: "G (x, q) = Return (y, q2)"
    by (cases F) auto
  from assms(3) [OF G] b have "c \<longrightarrow> complete_opt x" by simp
  with assms(1) F obtain q' where F': "F' = Return (x, q')" and R: "R q q'"
    by (auto simp: sim_def)
  from assms(2) [OF R, of x] G b obtain q2' where "G (x, q') = Return (y, q2')" "R q2 q2'"
    by (auto simp: sim_def)
  with F' show "\<exists>q'. bind F' G = Return (y, q') \<and> R q2 q'" by simp
qed

lemma sim_eat:
  assumes T1: "apart s tail"
    and T2: "parser_at (s @ tail) (length s) = Return q0"
    and T3: "token_type (currentToken q0) = RPAREN \<or>
      c \<and> (token_type (currentToken q0) = INTEGER \<or> token_type (currentToken q0) = LPAREN)"
    and f: "follows c s (s @ tail) p p'" and t: "t \<noteq> EOF"
    and G: "\<And>q q'. follows c s (s @ tail) q q' \<Longrightarrow> sim c (follows c s (s @ tail)) (G q) (G q')"
  shows "sim c (follows c s (s @ tail)) (bind (eat t p) G) (bind (eat t p') G)"
  unfolding sim_def
proof (intro allI impI)
  fix y q2 assume b: "bind (eat t p) G = Return (y, q2) \<and> (c \<longrightarrow> complete_opt y)"
  then obtain q where e: "eat t p = Return q" and g: "G q = Return (y, q2)"
    by (cases "eat t p") auto
  from e have tt: "token_type (currentToken p) = t" by (auto simp: eat_def split: if_splits)
  with t f obtain k tok where k: "k \<le> length s" "p = pstate s k tok" "p' = pstate (s @ tail) k tok"
    by (auto simp: follows_def)
  from e k tt have "parser_at s k = Return q" by (simp add: eat_pstate)
  from parser_at_trailing [OF T1 T2 T3 this k(1)] obtain q' where
    q': "parser_at (s @ tail) k = Return q'" "follows c s (s @ tail) q q'"
    by blast
  from G [OF q'(2)] g b obtain q2' where "G q' = Return (y, q2')" "follows c s (s @ tail) q2 q2'"
    by (auto simp: sim_def)
  with q' k tt show "\<exists>q'. bind (eat t p') G = Return (y, q') \<and> follows c s (s @ tail) q2 q'"
    by (simp add: eat_pstate)
qed

lemma parser_trailing_aux:
  fixes s tail :: string
  assumes T1: "apart s tail"
    and T2: "parser_at (s @ tail) (length s) = Return q0"
    and T3: "token_type (currentToken q0) = RPAREN \<or>
      c \<and> (token_type (currentToken q0) = INTEGER \<or> token_type (currentToken q0) = LPAREN)"
  shows
  "(\<forall>p p'. follows c s (s @ tail) p p' \<longrightarrow>
      sim c (follows c s (s @ tail)) (factor n p) (factor n p')) \<and>
   (\<forall>p p'. follows c s (s @ tail) p p' \<longrightarrow>
      sim c (follows c s (s @ tail)) (term' n p) (term' n p')) \<and>
   (\<forall>p p' node. follows c s (s @ tail) p p' \<longrightarrow>
      sim c (follows c s (s @ tail)) (term_loop n node p) (term_loop n node p')) \<and>
   (\<forall>p p'. follows c s (s @ tail) p p' \<longrightarrow>
      sim c (follows c s (s @ tail)) (expr n p) (expr n p')) \<and>
   (\<forall>p p' node. follows c s (s @ tail) p p' \<longrightarrow>
      sim c (follows c s (s @ tail)) (expr_loop n node p) (expr_loop n node p'))"
proof (induction n)
  case 0
  show ?case by (simp add: sim_def)
next
  case (Suc n)
  define R where "R = follows c s (s @ tail)"
  from Suc have F: "\<And>p p'. R p p' \<Longrightarrow> sim c R (factor n p) (factor n p')"
    and T: "\<And>p p'. R p p' \<Longrightarrow> sim c R (term' n p) (term' n p')"
    and TL: "\<And>p p' node. R p p' \<Longrightarrow> sim c R (term_loop n node p) (term_loop n node p')"
    and E: "\<And>p p'. R p p' \<Longrightarrow> sim c R (expr n p) (expr n p')"
    and EL: "\<And>p p' node. R p p' \<Longrightarrow> sim c R (expr_loop n node p) (expr_loop n node p')"
    unfolding R_def by blast+
  have eat: "sim c R (bind (eat t p) G) (bind (eat t p') G)"
    if "R p p'" "t \<noteq> EOF" "\<And>q q'. R q q' \<Longrightarrow> sim c R (G q) (G q')" for p p' t G
    using T1 T2 T3 that unfolding R_def by (rule sim_eat)
  have tk: "currentToken p' = currentToken p \<or>
      (token_type (currentToken p) = EOF \<and>
       (token_type (currentToken p') = RPAREN \<or>
        c \<and> (token_type (currentToken p') = INTEGER \<or> token_type (currentToken p') = LPAREN)))"
    if "R p p'" for p p'
    using that unfolding R_def by (rule follows_token)
  have 1: "sim c R (factor (Suc n) p) (factor (Suc n) p')" if r: "R p p'" for p p'
  proof -
    have u: "sim c R
        (bind (eat t p) (\<lambda>p1. bind (factor n p1) (\<lambda>(operand, p2). Return (Some (UnaryOp tok operand), p2))))
        (bind (eat t p') (\<lambda>p1. bind (factor n p1) (\<lambda>(operand, p2). Return (Some (UnaryOp tok operand), p2))))"
      if "t \<noteq> EOF" for t tok
    proof (rule eat [OF r that])
      fix q q' assume "R q q'"
      from F [OF this] show "sim c R
          (bind (factor n q) (\<lambda>(operand, p2). Return (Some (UnaryOp tok operand), p2)))
          (bind (factor n q') (\<lambda>(operand, p2). Return (Some (UnaryOp tok operand), p2)))"
        by (rule sim_bind) (auto simp: sim_Return)
    qed
    have i: "sim c R (bind (eat INTEGER p) (\<lambda>p1. Return (Some (new_Num tok), p1)))
        (bind (eat INTEGER p') (\<lambda>p1. Return (Some (new_Num tok), p1)))" for tok
      by (rule eat [OF r]) (simp_all add: sim_Return)
    have l: "sim c R
        (bind (eat LPAREN p) (\<lambda>p1. bind (expr n p1) (\<lambda>(result, p2). bind (eat RPAREN p2) (\<lambda>p3. Return (result, p3)))))
        (bind (eat LPAREN p') (\<lambda>p1. bind (expr n p1) (\<lambda>(result, p2). bind (eat RPAREN p2) (\<lambda>p3. Return (result, p3)))))"
    proof (rule eat [OF r])
      show "LPAREN \<noteq> EOF" by simp
      fix q q' assume "R q q'"
      from E [OF this] show "sim c R
          (bind (expr n q) (\<lambda>(result, p2). bind (eat RPAREN p2) (\<lambda>p3. Return (result, p3))))
          (bind (expr n q') (\<lambda>(result, p2). bind (eat RPAREN p2) (\<lambda>p3. Return (result, p3))))"
      proof (rule sim_bind)
        fix x :: "AST option" and q2 q2' assume r2: "R q2 q2'"
        have "sim c R (bind (eat RPAREN q2) (\<lambda>p3. Return (x, p3))) (bind (eat RPAREN q2') (\<lambda>p3. Return (x, p3)))"
          by (rule eat [OF r2]) (simp_all add: sim_Return)
        then show "sim c R
            (case (x, q2) of (result, p2) \<Rightarrow> bind (eat RPAREN p2) (\<lambda>p3. Return (result, p3)))
            (case (x, q2') of (result, p2) \<Rightarrow> bind (eat RPAREN p2) (\<lambda>p3. Return (result, p3)))"
          by simp
      next
        fix x :: "AST option" and q y q2
        assume "(case (x, q) of (result, p2) \<Rightarrow> bind (eat RPAREN p2) (\<lambda>p3. Return (result, p3))) =
            Return (y, q2)" "complete_opt y"
        then show "complete_opt x" by (auto simp: bind_eq_Return)
      qed
    qed
    from tk [OF r] consider
      (same) "currentToken p' = currentToken p"
      | (paren) "token_type (currentToken p) = EOF" "token_type (currentToken p') = RPAREN"
      | (operand) "token_type (currentToken p) = EOF" "c"
          "token_type (currentToken p') = INTEGER \<or> token_type (currentToken p') = LPAREN"
      by blast
    then show ?thesis
    proof cases
      case same
      with u [of PLUS] u [of MINUS] i l r show ?thesis
        by (cases "token_type (currentToken p)") (simp_all add: Let_def sim_Return)
    next
      case paren
      with r show ?thesis by (simp add: Let_def sim_Return)
    next
      case operand
      then show ?thesis by (simp add: Let_def sim_def)
    qed
  qed
  have 2: "sim c R (term' (Suc n) p) (term' (Suc n) p')" if r: "R p p'" for p p'
  proof -
    from F [OF r] have "sim c R (bind (factor n p) (\<lambda>(node, p1). term_loop n node p1))
        (bind (factor n p') (\<lambda>(node, p1). term_loop n node p1))"
      by (rule sim_bind) (auto simp: TL dest: term_loop_complete)
    then show ?thesis by simp
  qed
  have 3: "sim c R (term_loop (Suc n) node p) (term_loop (Suc n) node p')" if r: "R p p'" for p p' node
  proof -
    have e: "sim c R
        (bind (eat t p) (\<lambda>p2. bind (factor n p2) (\<lambda>(right, p3). term_loop n (Some (BinOp node tok right)) p3)))
        (bind (eat t p') (\<lambda>p2. bind (factor n p2) (\<lambda>(right, p3). term_loop n (Some (BinOp node tok right)) p3)))"
      if "t \<noteq> EOF" for t tok
    proof (rule eat [OF r that])
      fix q q' assume "R q q'"
      from F [OF this] show "sim c R
          (bind (factor n q) (\<lambda>(right, p3). term_loop n (Some (BinOp node tok right)) p3))
          (bind (factor n q') (\<lambda>(right, p3). term_loop n (Some (BinOp node tok right)) p3))"
        by (rule sim_bind) (auto simp: TL dest: term_loop_complete)
    qed
    from tk [OF r] show ?thesis
    proof
      assume "currentToken p' = currentToken p"
      with e [of MUL] e [of DIVIDE] r show ?thesis
        by (cases "token_type (currentToken p)") (simp_all add: Let_def sim_Return)
    next
      assume "token_type (currentToken p) = EOF \<and>
       (token_type (currentToken p') = RPAREN \<or>
        c \<and> (token_type (currentToken p') = INTEGER \<or> token_type (currentToken p') = LPAREN))"
      with r show ?thesis by (auto simp: Let_def sim_Return)
    qed
  qed
  have 4: "sim c R (expr (Suc n) p) (expr (Suc n) p')" if r: "R p p'" for p p'
  proof -
    from T [OF r] have "sim c R (bind (term' n p) (\<lambda>(node, p1). expr_loop n node p1))
        (bind (term' n p') (\<lambda>(node, p1). expr_loop n node p1))"
      by (rule sim_bind) (auto simp: EL dest: expr_loop_complete)
    then show ?thesis by simp
  qed
  have 5: "sim c R (expr_loop (Suc n) node p) (expr_loop (Suc n) node p')" if r: "R p p'" for p p' node
  proof -
    have e: "sim c R
        (bind (eat t p) (\<lambda>p2. bind (term' n p2) (\<lambda>(right, p3). expr_loop n (Some (BinOp node tok right)) p3)))
        (bind (eat t p') (\<lambda>p2. bind (term' n p2) (\<lambda>(right, p3). expr_loop n (Some (BinOp node tok right)) p3)))"
      if "t \<noteq> EOF" for t tok
    proof (rule eat [OF r that])
      fix q q' assume "R q q'"
      from T [OF this] show "sim c R
          (bind (term' n q) (\<lambda>(right, p3). expr_loop n (Some (BinOp node tok right)) p3))
          (bind (term' n q') (\<lambda>(right, p3). expr_loop n (Some (BinOp node tok right)) p3))"
        by (rule sim_bind) (auto simp: EL dest: expr_loop_complete)
    qed
    from tk [OF r] show ?thesis
    proof
      assume "currentToken p' = currentToken p"
      with e [of MINUS] e [of PLUS] r show ?thesis
        by (cases "token_type (currentToken p)") (simp_all add: Let_def sim_Return)
    next
      assume "token_type (currentToken p) = EOF \<and>
       (token_type (currentToken p') = RPAREN \<or>
        c \<and> (token_type (currentToken p') = INTEGER \<or> token_type (currentToken p') = LPAREN))"
      with r show ?thesis by (auto simp: Let_def sim_Return)
    qed
  qed
  from 1 2 3 4 5 show ?case unfolding R_def by blast
qed

lemma run_expr_trailing:
  assumes "apart s tail"
    and "parser_at (s @ tail) (length s) = Return q0"
    and "token_type (currentToken q0) = RPAREN \<or>
      c \<and> (token_type (currentToken q0) = INTEGER \<or> token_type (currentToken q0) = LPAREN)"
    and "follows c s (s @ tail) p p'"
  shows "sim c (follows c s (s @ tail)) (run_expr p) (run_expr p')"
proof -
  define n where "n = fuel_for p + fuel_for p'"
  have "expr n p = run_expr p" "expr n p' = run_expr p'"
    by (rule expr_stable, simp add: n_def fuel_for_def)+
  moreover from parser_trailing_aux [OF assms(1,2,3), of n] assms(4)
  have "sim c (follows c s (s @ tail)) (expr n p) (expr n p')" by blast
  ultimately show ?thesis by simp
qed

lemma parse_run_trailing:
  assumes "apart s tail"
    and "parser_at (s @ tail) (length s) = Return q0"
    and "token_type (currentToken q0) = RPAREN \<or>
      c \<and> (token_type (currentToken q0) = INTEGER \<or> token_type (currentToken q0) = LPAREN)"
    and "parse_run s = Return (tree, q)" "c \<longrightarrow> complete_opt tree"
  shows "\<exists>q'. parse_run (s @ tail) = Return (tree, q')"
proof -
  from assms(4) obtain p where p: "parser_at s 0 = Return p" and e: "run_expr p = Return (tree, q)"
    by (cases "parser_at s 0") (auto simp: parse_run_def)
  from parser_at_trailing [OF assms(1,2,3) p] obtain p' where
    p': "parser_at (s @ tail) 0 = Return p'" "follows c s (s @ tail) p p'"
    by auto
  from run_expr_trailing [OF assms(1,2,3) p'(2)] e assms(5)
  obtain q' where "run_expr p' = Return (tree, q')"
    by (auto simp: sim_def)
  with p' show ?thesis by (simp add: parse_run_def)
qed

lemma parse_text_run: "parse_text s = bind (parse_run s) (\<lambda>(tree, p'). Return tree)"
  by (simp add: parse_text_at parse_run_def bind_assoc)

text \<open>
  A closing parenthesis after a text that has a value, and anything after the
  parenthesis, change nothing: the tree is the same, and so is the value.
\<close>

lemma parse_text_trailing_paren:
  assumes "parse_text s = Return tree"
  shows "parse_text (s @ CHR '')'' # r) = Return tree"
proof -
  from assms obtain q where t: "parse_run s = Return (tree, q)"
    by (cases "parse_run s") (auto simp: parse_text_run)
  have "drop (length s) (s @ CHR '')'' # r) = CHR '')'' # r" by simp
  from parser_at_op [OF this] have
    "parser_at (s @ CHR '')'' # r) (length s) =
       Return (pstate (s @ CHR '')'' # r) (Suc (length s)) (op_token CHR '')''))"
    by (simp add: is_op_char_def)
  from parse_run_trailing [OF _ this _ t, of False] show ?thesis
    by (auto simp: parse_text_run is_digit_def op_token_def apart_def)
qed

lemma evaluate_trailing_paren:
  assumes "evaluate s = Return v"
  shows "evaluate (s @ CHR '')'' # r) = Return v"
proof -
  from assms obtain tree where t: "parse_text s = Return tree" and v: "v = visit tree"
    by (cases "parse_text s") (auto simp: evaluate_parse_text)
  from parse_text_trailing_paren [OF t, of r] v show ?thesis
    by (simp add: evaluate_parse_text)
qed

text \<open>
  After a text whose tree is complete, a parenthesis or a literal, and anything after
  it, change nothing.
\<close>

lemma dropWhile_spaces:
  "r = [] \<or> hd r \<noteq> CHR '' '' \<Longrightarrow>
   dropWhile (\<lambda>c. c = CHR '' '') (replicate n CHR '' '' @ r) = r"
proof (induction n)
  case 0
  then show ?case by (cases r) auto
next
  case (Suc n)
  then show ?case by simp
qed

lemma trailing_pull:
  assumes "trailing s tail"
  shows "apart s tail \<and>
    (\<exists>q0. parser_at (s @ tail) (length s) = Return q0 \<and>
      (token_type (currentToken q0) = RPAREN \<or> token_type (currentToken q0) = INTEGER \<or>
       token_type (currentToken q0) = LPAREN))"
proof -
  from spaces_split [of tail] obtain n r where
    tl: "tail = replicate n CHR '' '' @ r" and h: "r = [] \<or> hd r \<noteq> CHR '' ''"
    by blast
  from dropWhile_spaces [OF h, of n] tl
  have dw: "dropWhile (\<lambda>c. c = CHR '' '') tail = r" by simp
  with assms obtain ch r2 where r: "r = ch # r2"
    and ch: "ch = CHR ''('' \<or> ch = CHR '')'' \<or> (is_digit ch \<and> apart s tail)"
    by (auto simp: trailing_def split: list.splits)
  have nd: "apart s tail"
  proof (cases n)
    case 0
    with tl r ch show ?thesis by (auto simp: is_digit_def apart_def)
  next
    case (Suc m)
    with tl show ?thesis by (simp add: is_digit_def apart_def)
  qed
  have d: "drop (length s) (s @ tail) = replicate n CHR '' '' @ (ch # r2)"
    using tl r by simp
  from parser_at_spaces [OF d]
  have a: "parser_at (s @ tail) (length s) = parser_at (s @ tail) (length s + n)" .
  from drop_append_eq [OF d] have d2: "drop (length s + n) (s @ tail) = ch # r2" by simp
  have "\<exists>q0. parser_at (s @ tail) (length s + n) = Return q0 \<and>
      (token_type (currentToken q0) = RPAREN \<or> token_type (currentToken q0) = INTEGER \<or>
       token_type (currentToken q0) = LPAREN)"
  proof (cases "is_digit ch")
    case False
    with ch have o: "ch = CHR ''('' \<or> ch = CHR '')''" by blast
    then have "is_op_char ch" by (auto simp: is_op_char_def)
    from parser_at_op [OF d2 this] o show ?thesis by (auto simp: op_token_def)
  next
    case True
    define ds where "ds = takeWhile is_digit (ch # r2)"
    define r3 where "r3 = dropWhile is_digit (ch # r2)"
    have dd: "drop (length s + n) (s @ tail) = ds @ r3" using d2 by (simp add: ds_def r3_def)
    have ne: "ds \<noteq> []" using True by (simp add: ds_def)
    have al: "\<forall>c\<in>set ds. is_digit c" unfolding ds_def by (auto dest: set_takeWhileD)
    have hd: "r3 = [] \<or> \<not> is_digit (hd r3)"
      unfolding r3_def using hd_dropWhile [of is_digit "ch # r2"] by blast
    from parser_at_digits [OF dd ne al hd] show ?thesis by simp
  qed
  with a nd show ?thesis by simp
qed

lemma parse_text_trailing:
  assumes "parse_text s = Return tree" "complete_opt tree" "trailing s tail"
  shows "parse_text (s @ tail) = Return tree"
proof -
  from assms(1) obtain q where t: "parse_run s = Return (tree, q)"
    by (cases "parse_run s") (auto simp: parse_text_run)
  from trailing_pull [OF assms(3)] obtain q0 where
    nd: "apart s tail"
    and q0: "parser_at (s @ tail) (length s) = Return q0"
      "token_type (currentToken q0) = RPAREN \<or> token_type (currentToken q0) = INTEGER \<or>
       token_type (currentToken q0) = LPAREN"
    by blast
  from parse_run_trailing [OF nd q0(1) _ t, of True] q0(2) assms(2) show ?thesis
    by (auto simp: parse_text_run)
qed

lemma evaluate_trailing:
  assumes "parse_text s = Return tree" "complete_opt tree" "trailing s tail"
  shows "evaluate (s @ tail) = Return (visit tree) \<and> evaluate s = Return (visit tree)"
  using parse_text_trailing [OF assms] assms(1) by (simp add: evaluate_parse_text)

lemma complete_to_AST: "complete (to_AST e)"
  by (induction e) (simp_all add: new_Num_def)

lemma complete_chain_tree: "complete t \<Longrightarrow> complete (chain_tree t rest)"
  by (induction rest arbitrary: t) (auto simp: lit_def new_Num_def)

section \<open>Examples\<close>

lemma ex_double_minus: "evaluate ''- -5'' = Return (Number (Finite 5))"
  by code_simp

lemma ex_minus_paren: "evaluate ''-(2+3)'' = Return (Number (Finite (- 5)))"
  by code_simp

lemma ex_triple_minus:
  "parse_text ''- - - 5'' = Return (Some
     (UnaryOp (Token MINUS (StrVal ''-'')) (Some
       (UnaryOp (Token MINUS (StrVal ''-'')) (Some
         (UnaryOp (Token MINUS (StrVal ''-'')) (Some
           (Num (Token INTEGER (NumVal (Finite 5))) (Finite 5)))))))))"
  by code_simp

lemma parseFloat_7: "parseFloat ''7'' = Finite 7"
  by code_simp

lemma ex_trailing:
  "evaluate ''1 + 1 )'' = Return (Number (Finite 2)) \<and>
   evaluate ''1 + 1'' = Return (Number (Finite 2)) \<and>
   bind (new_Parser (new_Lexer ''1 + 1 )'')) (\<lambda>parser.
     bind (parse (parser_fuel ''1 + 1 )'') parser) (\<lambda>(tree, p').
       Return (token_type (currentToken p')))) = Return RPAREN"
  by code_simp

lemma ex_division: "evaluate ''7 / 2'' = Return (Number (Finite (7 / 2)))"
  by code_simp

lemma ex_div_zero:
  "evaluate ''1 / 0'' = Return (Number PosInfinity) \<and>
   evaluate ''0 / 0'' = Return (Number NaN) \<and>
   evaluate ''1 / -0'' = Return (Number NegInfinity)"
  by code_simp

lemma js_div_zero: "is_zero y \<Longrightarrow> js_div x y \<in> {NaN, PosInfinity, NegInfinity}"
  by (cases y) (auto simp: js_div_def signed_inf_def)

lemma ex_left_assoc:
  "evaluate ''10 - 2 - 3'' = Return (Number (Finite 5)) \<and>
   parse_text ''10 - 2 - 3'' = Return (Some
     (BinOp
       (Some (BinOp (Some (Num (Token INTEGER (NumVal (Finite 10))) (Finite 10)))
          (Token MINUS (StrVal ''-''))
          (Some (Num (Token INTEGER (NumVal (Finite 2))) (Finite 2)))))
       (Token MINUS (StrVal ''-''))
       (Some (Num (Token INTEGER (NumVal (Finite 3))) (Finite 3)))))"
  by code_simp

lemma parseFloat_examples:
  "parseFloat ''10'' = Finite 10 \<and> parseFloat ''2'' = Finite 2 \<and> parseFloat ''3'' = Finite 3"
  by code_simp

lemma ex_render:
  "render (Bin (Lit 2) Plus (Bin (Lit 3) Times (Lit 4))) = ''(2 + (3 * 4))'' \<and>
   fold_tree (Bin (Lit 2) Plus (Bin (Lit 3) Times (Lit 4))) = Finite 14"
  by code_simp

lemma ex_precedence:
  "evaluate ''2 + 3 * 4'' = Return (Number (Finite 14)) \<and>
   evaluate ''(2 + 3) * 4'' = Return (Number (Finite 20)) \<and>
   evaluate ''3 * 4 + 2'' = Return (Number (Finite 14)) \<and>
   digits 2 = ''2'' \<and> digits 3 = ''3'' \<and> digits 4 = ''4'' \<and>
   fold_tree (Bin (Lit 2) Plus (Bin (Lit 3) Times (Lit 4))) = Finite 14 \<and>
   fold_tree (Bin (Bin (Lit 2) Plus (Lit 3)) Times (Lit 4)) = Finite 20"
  by code_simp



lemma ex_trailing_more:
  "evaluate ''1 + 1 2'' = Return (Number (Finite 2)) \<and>
   evaluate ''1 + 1 (9'' = Return (Number (Finite 2)) \<and>
   evaluate ''1 + 1 ) * 5 &'' = Return (Number (Finite 2)) \<and>
   parse_text ''1 + 1'' = Return (Some
     (BinOp (Some (Num (Token INTEGER (NumVal (Finite 1))) (Finite 1)))
        (Token PLUS (StrVal ''+''))
        (Some (Num (Token INTEGER (NumVal (Finite 1))) (Finite 1))))) \<and>
   evaluate ''(1 + 1)2'' = Return (Number (Finite 2)) \<and>
   trailing ''1 + 1'' '' )'' \<and> trailing ''1 + 1'' '' 2'' \<and> trailing ''1 + 1'' '' (9'' \<and>
   trailing ''(1 + 1)'' ''2'' \<and> \<not> trailing ''1 + 1'' '' + 2'' \<and> \<not> trailing ''1 + 1'' ''2''"
  by code_simp

section \<open>The claims\<close>

text \<open>
  C1. Multiplication binds tighter than addition and subtraction, unless parentheses
  override it. For every tree of literals and the operators \<open>+\<close>, \<open>-\<close> and \<open>*\<close>, the
  text that writes the tree with the necessary parentheses only is parsed into that
  tree, and its value is the value of the tree. So in \<open>a + b * c\<close> and in \<open>a * b + c\<close>
  the product is one operand of the sum, and in \<open>(a + b) * c\<close> and \<open>a * (b + c)\<close> the
  parenthesised sum is one operand of the product, whatever the literals are;
  \<open>2 + 3 * 4\<close> is 14 and \<open>(2 + 3) * 4\<close> is 20.
\<close>

theorem C1_precedence:
  "parse_text (pretty 0 e) = Return (Some (to_AST e)) \<and>
   evaluate (pretty 0 e) = Return (Number (fold_tree e)) \<and>
   parse_text (digits a @ '' + '' @ digits b @ '' * '' @ digits c) =
     Return (Some (to_AST (Bin (Lit a) Plus (Bin (Lit b) Times (Lit c))))) \<and>
   parse_text (digits a @ '' * '' @ digits b @ '' + '' @ digits c) =
     Return (Some (to_AST (Bin (Bin (Lit a) Times (Lit b)) Plus (Lit c)))) \<and>
   parse_text (''('' @ digits a @ '' + '' @ digits b @ '') * '' @ digits c) =
     Return (Some (to_AST (Bin (Bin (Lit a) Plus (Lit b)) Times (Lit c)))) \<and>
   parse_text (digits a @ '' * ('' @ digits b @ '' + '' @ digits c @ '')'') =
     Return (Some (to_AST (Bin (Lit a) Times (Bin (Lit b) Plus (Lit c))))) \<and>
   evaluate ''2 + 3 * 4'' = Return (Number (Finite 14)) \<and>
   evaluate ''(2 + 3) * 4'' = Return (Number (Finite 20)) \<and>
   evaluate ''3 * 4 + 2'' = Return (Number (Finite 14))"
proof -
  have 1: "parse_text (digits a @ '' + '' @ digits b @ '' * '' @ digits c) =
      Return (Some (to_AST (Bin (Lit a) Plus (Bin (Lit b) Times (Lit c)))))"
    using pretty_tree [of "Bin (Lit a) Plus (Bin (Lit b) Times (Lit c))"] by simp
  have 2: "parse_text (digits a @ '' * '' @ digits b @ '' + '' @ digits c) =
      Return (Some (to_AST (Bin (Bin (Lit a) Times (Lit b)) Plus (Lit c))))"
    using pretty_tree [of "Bin (Bin (Lit a) Times (Lit b)) Plus (Lit c)"] by simp
  have 3: "parse_text (''('' @ digits a @ '' + '' @ digits b @ '') * '' @ digits c) =
      Return (Some (to_AST (Bin (Bin (Lit a) Plus (Lit b)) Times (Lit c))))"
    using pretty_tree [of "Bin (Bin (Lit a) Plus (Lit b)) Times (Lit c)"] by simp
  have 4: "parse_text (digits a @ '' * ('' @ digits b @ '' + '' @ digits c @ '')'') =
      Return (Some (to_AST (Bin (Lit a) Times (Bin (Lit b) Plus (Lit c)))))"
    using pretty_tree [of "Bin (Lit a) Times (Bin (Lit b) Plus (Lit c))"] by simp
  from 1 2 3 4 pretty_tree [of e] pretty_value [of e] ex_precedence show ?thesis
    by blast
qed

text \<open>
  C2. A chain of operators of one precedence, here over literals, is parsed into the
  tree nested to the left: each pass of the loop of \<open>expr\<close> (of \<open>term\<close>) makes the
  node built so far the left child of a new \<open>BinOp\<close> and the next \<open>term()\<close>
  (\<open>factor()\<close>) its right child. So \<open>10 - 2 - 3\<close> is \<open>(10 - 2) - 3 = 5\<close>, not 11.
\<close>

theorem C2_left_associative:
  assumes "ds0 \<noteq> []" "\<forall>d\<in>set ds0. is_digit d" "literals (map snd rest)"
    and "set (map fst rest) \<subseteq> {CHR ''+'', CHR ''-''} \<or> set (map fst rest) \<subseteq> {CHR ''*'', CHR ''/''}"
  shows "parse_text (ds0 @ chain_text rest) = Return (Some (chain_tree (lit ds0) rest)) \<and>
         evaluate (ds0 @ chain_text rest) = Return (visit (Some (chain_tree (lit ds0) rest))) \<and>
         (\<forall>node p. token_type (currentToken p) = PLUS \<or> token_type (currentToken p) = MINUS \<longrightarrow>
            run_expr_loop node p =
              bind (eat (token_type (currentToken p)) p) (\<lambda>p2. bind (run_term p2) (\<lambda>(right, p3).
                run_expr_loop (Some (BinOp node (currentToken p) right)) p3))) \<and>
         (\<forall>node p. token_type (currentToken p) = MUL \<or> token_type (currentToken p) = DIVIDE \<longrightarrow>
            run_term_loop node p =
              bind (eat (token_type (currentToken p)) p) (\<lambda>p2. bind (run_factor p2) (\<lambda>(right, p3).
                run_term_loop (Some (BinOp node (currentToken p) right)) p3))) \<and>
         evaluate ''10 - 2 - 3'' = Return (Number (Finite 5)) \<and>
         evaluate ''10 - 2 - 3'' \<noteq> Return (Number (Finite 11))"
proof -
  have t: "parse_text (ds0 @ chain_text rest) = Return (Some (chain_tree (lit ds0) rest))"
    using assms by (rule chain_parse)
  then have "evaluate (ds0 @ chain_text rest) = Return (visit (Some (chain_tree (lit ds0) rest)))"
    by (simp add: evaluate_parse_text)
  with t expr_loop_step term_loop_step ex_left_assoc show ?thesis by simp
qed

text \<open>
  The chain \<open>10 - 2 - 3\<close>.
\<close>

theorem C2_left_associative_witness:
  "''10'' \<noteq> [] \<and> is_digit CHR ''1'' \<and> is_digit CHR ''0'' \<and>
   literals (map snd [(CHR ''-'', ''2''), (CHR ''-'', ''3'')]) \<and>
   set (map fst [(CHR ''-'', ''2''), (CHR ''-'', ''3'')]) \<subseteq> {CHR ''+'', CHR ''-''} \<and>
   parse_text ''10 - 2 - 3'' = Return (Some
     (BinOp
       (Some (BinOp (Some (Num (Token INTEGER (NumVal (Finite 10))) (Finite 10)))
          (Token MINUS (StrVal ''-''))
          (Some (Num (Token INTEGER (NumVal (Finite 2))) (Finite 2)))))
       (Token MINUS (StrVal ''-''))
       (Some (Num (Token INTEGER (NumVal (Finite 3))) (Finite 3)))))"
  using C2_left_associative [of "''10''" "[(CHR ''-'', ''2''), (CHR ''-'', ''3'')]"]
  by (simp add: literals_def is_digit_def lit_def new_Num_def op_token_def parseFloat_examples)

text \<open>
  C3. A prefix \<open>+\<close> or \<open>-\<close> is parsed by \<open>factor\<close> calling itself, so a run of signs
  before a literal gives \<open>UnaryOp\<close> nodes nested one per sign, the first sign
  outermost; \<open>visit\<close> leaves the operand as it is for \<open>+\<close> and negates it for \<open>-\<close>.
  So \<open>- -5\<close> evaluates to 5 and \<open>-(2+3)\<close> to -5.
\<close>

theorem C3_unary_operators:
  assumes "set signs \<subseteq> {CHR ''+'', CHR ''-''}" "ds \<noteq> []" "\<forall>c\<in>set ds. is_digit c"
  shows "parse_text (signs @ ds) =
           Return (Some (nest signs (new_Num (Token INTEGER (NumVal (parseFloat ds)))))) \<and>
         evaluate (signs @ ds) = Return (Number (apply_signs signs (parseFloat ds))) \<and>
         evaluate ''- -5'' = Return (Number (Finite 5)) \<and>
         evaluate ''-(2+3)'' = Return (Number (Finite (- 5)))"
  using assms by (simp add: unary_chain_tree unary_chain ex_double_minus ex_minus_paren)

text \<open>
  The signs \<open>-+-\<close> before the literal 7: three nested nodes, and the value 7.
\<close>

theorem C3_unary_operators_witness:
  "set ''-+-'' \<subseteq> {CHR ''+'', CHR ''-''} \<and> ''7'' \<noteq> [] \<and> is_digit CHR ''7'' \<and>
   evaluate ''-+-7'' = Return (Number (Finite 7)) \<and>
   parse_text ''-+-7'' = Return (Some
     (UnaryOp (Token MINUS (StrVal ''-'')) (Some
       (UnaryOp (Token PLUS (StrVal ''+'')) (Some
         (UnaryOp (Token MINUS (StrVal ''-'')) (Some
           (Num (Token INTEGER (NumVal (Finite 7))) (Finite 7)))))))))"
  using C3_unary_operators [of "''-+-''" "''7''"]
  by (simp add: is_digit_def parseFloat_7 op_token_def new_Num_def)

text \<open>
  C4. An unmatched parenthesis is a fatal error: \<open>(1 + 2\<close> fails with
  \<open>Invalid syntax\<close>, thrown by \<open>eat(RPAREN)\<close>. A missing operand is not: in \<open>1 +\<close>,
  \<open>factor\<close> finds the end of the input, matches none of its cases and returns no
  node; the tree is \<open>BinOp(1, +, undefined)\<close> and its value is \<open>NaN\<close>.
\<close>

theorem C4_missing_operand:
  "evaluate ''(1 + 2'' = Throw UnexpectedToken \<and> evaluate ''1 +'' = Return (Number NaN)"
  by code_simp

text \<open>
  C5. \<open>parse\<close> is \<open>expr\<close> and nothing more: it does not look at what follows the
  expression. A closing parenthesis after a text that has a value, and anything after
  the parenthesis, leave the value as it is. After a text whose tree has all its
  operands, the same holds for whatever starts, after spaces, with a parenthesis, or
  with a literal that is apart from the text: the tree and the value are those of the
  text alone. So \<open>1 + 1 )\<close>, \<open>1 + 1 2\<close>, \<open>1 + 1 (9\<close> and \<open>(1 + 1)2\<close> all evaluate
  to 2, the value of \<open>1 + 1\<close>.
\<close>

theorem C5_trailing_tokens:
  "(\<forall>n p. parse n p = expr n p) \<and>
   (evaluate s = Return v \<longrightarrow> evaluate (s @ CHR '')'' # r) = Return v) \<and>
   (parse_text s = Return tree \<and> complete_opt tree \<and> trailing s tail \<longrightarrow>
      parse_text (s @ tail) = Return tree \<and>
      evaluate (s @ tail) = Return (visit tree) \<and> evaluate s = Return (visit tree)) \<and>
   (trailing (render e) tail \<longrightarrow> evaluate (render e @ tail) = Return (Number (fold_tree e))) \<and>
   evaluate ''1 + 1 )'' = Return (Number (Finite 2)) \<and>
   evaluate ''1 + 1'' = Return (Number (Finite 2)) \<and>
   evaluate ''1 + 1 2'' = Return (Number (Finite 2)) \<and>
   evaluate ''1 + 1 (9'' = Return (Number (Finite 2)) \<and>
   evaluate ''(1 + 1)2'' = Return (Number (Finite 2)) \<and>
   bind (new_Parser (new_Lexer ''1 + 1 )'')) (\<lambda>parser.
     bind (parse (parser_fuel ''1 + 1 )'') parser) (\<lambda>(tree, p').
       Return (token_type (currentToken p')))) = Return RPAREN"
proof -
  have a: "\<forall>n p. parse n p = expr n p" by (simp add: parse_def)
  have b: "evaluate s = Return v \<longrightarrow> evaluate (s @ CHR '')'' # r) = Return v"
    using evaluate_trailing_paren by blast
  have c: "parse_text s = Return tree \<and> complete_opt tree \<and> trailing s tail \<longrightarrow>
      parse_text (s @ tail) = Return tree \<and>
      evaluate (s @ tail) = Return (visit tree) \<and> evaluate s = Return (visit tree)"
    using parse_text_trailing [of s tree tail] evaluate_trailing [of s tree tail] by blast
  have d: "trailing (render e) tail \<longrightarrow> evaluate (render e @ tail) = Return (Number (fold_tree e))"
    using evaluate_trailing [OF round_trip_tree, of e tail] complete_to_AST [of e]
    by (simp add: visit_to_AST complete_opt_def)
  from a b c d ex_trailing ex_trailing_more show ?thesis by blast
qed

text \<open>
  The text \<open>1 + 1\<close>, and after it \<open>)\<close>, \<open> )\<close> and \<open> 2\<close>.
\<close>

theorem C5_trailing_tokens_witness:
  "evaluate ''1 + 1'' = Return (Number (Finite 2)) \<and>
   evaluate ''1 + 1)'' = Return (Number (Finite 2)) \<and>
   parse_text ''1 + 1'' = Return (Some
     (BinOp (Some (Num (Token INTEGER (NumVal (Finite 1))) (Finite 1)))
        (Token PLUS (StrVal ''+''))
        (Some (Num (Token INTEGER (NumVal (Finite 1))) (Finite 1))))) \<and>
   complete_opt (Some
     (BinOp (Some (Num (Token INTEGER (NumVal (Finite 1))) (Finite 1)))
        (Token PLUS (StrVal ''+''))
        (Some (Num (Token INTEGER (NumVal (Finite 1))) (Finite 1))))) \<and>
   trailing ''1 + 1'' '' 2'' \<and>
   trailing (render (Bin (Lit 1) Plus (Lit 1))) '' 2'' \<and>
   parse_text ''1 + 1 2'' = Return (Some
     (BinOp (Some (Num (Token INTEGER (NumVal (Finite 1))) (Finite 1)))
        (Token PLUS (StrVal ''+''))
        (Some (Num (Token INTEGER (NumVal (Finite 1))) (Finite 1))))) \<and>
   evaluate (render (Bin (Lit 1) Plus (Lit 1)) @ '' 2'') =
     Return (Number (fold_tree (Bin (Lit 1) Plus (Lit 1))))"
proof -
  let ?t = "Some
     (BinOp (Some (Num (Token INTEGER (NumVal (Finite 1))) (Finite 1)))
        (Token PLUS (StrVal ''+''))
        (Some (Num (Token INTEGER (NumVal (Finite 1))) (Finite 1))))"
  have h1: "evaluate ''1 + 1'' = Return (Number (Finite 2))"
    and h2: "parse_text ''1 + 1'' = Return ?t" and h3: "trailing ''1 + 1'' '' 2''"
    using ex_trailing ex_trailing_more by blast+
  have h4: "complete_opt ?t" by simp
  have h5: "trailing (render (Bin (Lit 1) Plus (Lit 1))) '' 2''"
    by (simp add: trailing_def apart_def is_digit_def)
  note t = C5_trailing_tokens [where s = "''1 + 1''" and v = "Number (Finite 2)" and r = "[]"
      and tree = ?t and tail = "'' 2''" and e = "Bin (Lit 1) Plus (Lit 1)"]
  from t h1 have 1: "evaluate (''1 + 1'' @ CHR '')'' # []) = Return (Number (Finite 2))"
    by blast
  from t h2 h3 h4 have 2: "parse_text (''1 + 1'' @ '' 2'') = Return ?t" by blast
  from t h5 have 3: "evaluate (render (Bin (Lit 1) Plus (Lit 1)) @ '' 2'') =
     Return (Number (fold_tree (Bin (Lit 1) Plus (Lit 1))))" by blast
  from 1 have e1: "evaluate ''1 + 1)'' = Return (Number (Finite 2))" by simp
  from 2 have e2: "parse_text ''1 + 1 2'' = Return ?t" by simp
  from h1 h2 h3 h4 h5 e1 e2 3 show ?thesis by blast
qed




text \<open>
  C7. Division is the division of the host's numbers: \<open>visit\<close> of a \<open>DIVIDE\<close> node is
  the quotient of the operands' values, which for finite operands and a non-zero
  divisor is the quotient of the rationals, rounded to the nearest number and not
  truncated to an integer. \<open>7 / 2\<close> evaluates to 3.5, not to 3.
\<close>

theorem C7_division:
  "evaluate ''7 / 2'' = Return (Number (Finite (7 / 2))) \<and>
   evaluate ''7 / 2'' \<noteq> Return (Number (Finite 3)) \<and>
   (\<forall>left v right. visit (Some (BinOp left (Token DIVIDE v) right)) =
      Number (js_div (ToNumber (visit left)) (ToNumber (visit right)))) \<and>
   (\<forall>a b. js_div (Finite a) (Finite b) =
      (if b = 0 then (if a = 0 then NaN else signed_inf (a < 0))
       else if a = 0 then signed_zero (b < 0)
       else round64 (a / b)))"
  by (auto simp: ex_division js_div_def)

text \<open>
  C8. Evaluation throws no error of its own. When the lexer and the parser give a
  tree, the result is the value \<open>visit\<close> computes for it; a division by a zero gives
  an infinity or \<open>NaN\<close>, as the host's division does: \<open>1 / 0\<close> evaluates to
  \<open>Infinity\<close>.
\<close>

theorem C8_division_by_zero:
  assumes "new_Parser (new_Lexer input) = Return parser"
    and "parse (parser_fuel input) parser = Return (tree, p')"
  shows "evaluate input = Return (visit tree) \<and>
         (\<forall>left v right. is_zero (ToNumber (visit right)) \<longrightarrow>
            (\<exists>x. visit (Some (BinOp left (Token DIVIDE v) right)) = Number x \<and>
                 x \<in> {NaN, PosInfinity, NegInfinity})) \<and>
         evaluate ''1 / 0'' = Return (Number PosInfinity) \<and>
         evaluate ''0 / 0'' = Return (Number NaN) \<and>
         evaluate ''1 / -0'' = Return (Number NegInfinity)"
  using assms ex_div_zero js_div_zero
  by (simp add: evaluate_def interpret'_def)

text \<open>
  The input \<open>1 / 0\<close>: it parses, the divisor is zero and the value is \<open>Infinity\<close>.
\<close>

theorem C8_division_by_zero_witness:
  "new_Parser (new_Lexer ''1 / 0'') =
     Return \<lparr>lexer = \<lparr>text' = ''1 / 0'', pos = 1, currentChar = Some CHR '' ''\<rparr>,
             currentToken = Token INTEGER (NumVal (Finite 1))\<rparr> \<and>
   parse (parser_fuel ''1 / 0'')
       \<lparr>lexer = \<lparr>text' = ''1 / 0'', pos = 1, currentChar = Some CHR '' ''\<rparr>,
        currentToken = Token INTEGER (NumVal (Finite 1))\<rparr> =
     Return (Some (BinOp (Some (Num (Token INTEGER (NumVal (Finite 1))) (Finite 1)))
               (Token DIVIDE (StrVal ''/''))
               (Some (Num (Token INTEGER (NumVal (Finite 0))) (Finite 0)))),
             \<lparr>lexer = \<lparr>text' = ''1 / 0'', pos = 5, currentChar = None\<rparr>,
              currentToken = Token EOF NoVal\<rparr>) \<and>
   evaluate ''1 / 0'' =
     Return (visit (Some (BinOp (Some (Num (Token INTEGER (NumVal (Finite 1))) (Finite 1)))
               (Token DIVIDE (StrVal ''/''))
               (Some (Num (Token INTEGER (NumVal (Finite 0))) (Finite 0)))))) \<and>
   is_zero (ToNumber (visit (Some (Num (Token INTEGER (NumVal (Finite 0))) (Finite 0))))) \<and>
   visit (Some (BinOp (Some (Num (Token INTEGER (NumVal (Finite 1))) (Finite 1)))
               (Token DIVIDE (StrVal ''/''))
               (Some (Num (Token INTEGER (NumVal (Finite 0))) (Finite 0))))) = Number PosInfinity"
proof -
  let ?p = "\<lparr>lexer = \<lparr>text' = ''1 / 0'', pos = 1, currentChar = Some CHR '' ''\<rparr>,
             currentToken = Token INTEGER (NumVal (Finite 1))\<rparr>"
  have h1: "new_Parser (new_Lexer ''1 / 0'') = Return ?p"
    by code_simp
  have h2: "parse (parser_fuel ''1 / 0'') ?p =
     Return (Some (BinOp (Some (Num (Token INTEGER (NumVal (Finite 1))) (Finite 1)))
               (Token DIVIDE (StrVal ''/''))
               (Some (Num (Token INTEGER (NumVal (Finite 0))) (Finite 0)))),
             \<lparr>lexer = \<lparr>text' = ''1 / 0'', pos = 5, currentChar = None\<rparr>,
              currentToken = Token EOF NoVal\<rparr>)"
    by code_simp
  have h3: "visit (Some (BinOp (Some (Num (Token INTEGER (NumVal (Finite 1))) (Finite 1)))
               (Token DIVIDE (StrVal ''/''))
               (Some (Num (Token INTEGER (NumVal (Finite 0))) (Finite 0))))) = Number PosInfinity"
    by (simp add: js_div_def signed_inf_def)
  from C8_division_by_zero [OF h1 h2] h1 h2 h3 show ?thesis by simp
qed

text \<open>
  C9. Round trip: for every tree of non-negative integer literals and the operators
  \<open>+\<close>, \<open>-\<close> and \<open>*\<close>, parsing its rendering gives back the tree, and evaluating
  the rendering gives the number that folding the tree with the operations of the
  host's numbers gives. Where every literal and every intermediate value is below
  \<open>2^53\<close> in magnitude, that number is the value of the tree in the integers.
\<close>

theorem C9_round_trip:
  "parse_text (render e) = Return (Some (to_AST e)) \<and>
   visit (Some (to_AST e)) = Number (fold_tree e) \<and>
   evaluate (render e) = Return (Number (fold_tree e)) \<and>
   (safe e \<longrightarrow> is_int_value (fold_tree e) (exact_value e))"
  by (simp add: round_trip_tree round_trip_value visit_to_AST fold_tree_exact)

text \<open>
  The tree of \<open>2 + 3 * 4\<close>: its rendering \<open>(2 + (3 * 4))\<close> evaluates to 14.
\<close>

theorem C9_round_trip_witness:
  "safe (Bin (Lit 2) Plus (Bin (Lit 3) Times (Lit 4))) \<and>
   evaluate ''(2 + (3 * 4))'' = Return (Number (Finite 14)) \<and>
   is_int_value (Finite 14) (exact_value (Bin (Lit 2) Plus (Bin (Lit 3) Times (Lit 4))))"
proof -
  let ?e = "Bin (Lit 2) Plus (Bin (Lit 3) Times (Lit 4))"
  have r: "render ?e = ''(2 + (3 * 4))''" by (rule conjunct1 [OF ex_render])
  have f: "fold_tree ?e = Finite 14" by (rule conjunct2 [OF ex_render])
  have s: "safe ?e" by simp
  from C9_round_trip [of ?e]
  have a: "evaluate (render ?e) = Return (Number (fold_tree ?e))"
    and b: "safe ?e \<longrightarrow> is_int_value (fold_tree ?e) (exact_value ?e)"
    by blast+
  from a have "evaluate ''(2 + (3 * 4))'' = Return (Number (Finite 14))" unfolding r f .
  moreover from b s have "is_int_value (Finite 14) (exact_value ?e)" unfolding f by blast
  ultimately show ?thesis using s by blast
qed

text \<open>
  C10, amended. When the first token is \<open>EOF\<close> (the empty input) or \<open>RPAREN\<close>,
  \<open>factor\<close> matches none of its cases and returns no node, both loops stop at once,
  and \<open>visit\<close> of the absent node is \<open>undefined\<close>: the run neither throws nor
  returns a number.
\<close>

theorem C10_no_operand_at_start:
  assumes "new_Parser (new_Lexer input) = Return parser"
    and "token_type (currentToken parser) = EOF \<or> token_type (currentToken parser) = RPAREN"
  shows "factor (Suc n) parser = Return (None, parser) \<and>
         visit None = Undefined \<and>
         evaluate input = Return Undefined \<and>
         evaluate '''' = Return Undefined"
proof -
  have e: "evaluate '''' = Return Undefined" by code_simp
  from assms(2) have f: "run_factor parser = Return (None, parser)"
    by (intro run_factor_falls_through) auto
  from assms(2) have tl: "run_term_loop None parser = Return (None, parser)"
    by (subst run_term_loop_unfold) auto
  from assms(2) have el: "run_expr_loop None parser = Return (None, parser)"
    by (subst run_expr_loop_unfold) auto
  have "evaluate input = Return Undefined"
    using assms(1) by (simp add: evaluate_run run_interpret_factor f tl el)
  with assms(2) e show ?thesis by (auto simp: Let_def)
qed

text \<open>
  The input \<open>)\<close>.
\<close>

theorem C10_no_operand_at_start_witness:
  "new_Parser (new_Lexer '')'') =
     Return \<lparr>lexer = \<lparr>text' = '')'', pos = 1, currentChar = None\<rparr>,
             currentToken = Token RPAREN (StrVal '')'')\<rparr> \<and>
   token_type (Token RPAREN (StrVal '')'')) = RPAREN \<and>
   evaluate '')'' = Return Undefined"
proof -
  have h1: "new_Parser (new_Lexer '')'') =
     Return \<lparr>lexer = \<lparr>text' = '')'', pos = 1, currentChar = None\<rparr>,
             currentToken = Token RPAREN (StrVal '')'')\<rparr>"
    by code_simp
  from C10_no_operand_at_start [OF h1, of 0] h1 show ?thesis by simp
qed

text \<open>
  C10 as stated also covers a first token \<open>MUL\<close> or \<open>DIVIDE\<close>. There \<open>factor\<close>
  returns no node as well, but \<open>term\<close> goes on with the operator: \<open>*(\<close> throws
  \<open>Invalid syntax\<close>, and \<open>*2\<close> returns the number \<open>NaN\<close>.
\<close>

theorem C10_counterexample:
  "bind (new_Parser (new_Lexer ''*('')) (\<lambda>parser. Return (token_type (currentToken parser))) =
     Return MUL \<and>
   evaluate ''*('' = Throw UnexpectedToken \<and>
   evaluate ''*2'' = Return (Number NaN)"
  by code_simp

end
